theory Spec2Isabelle
  imports Complex_Main "HOL-Library.Word" "HOL-Library.Signed_Division"
begin

section \<open>C integer arithmetic\<close>

text \<open>
  \<^verbatim>\<open>dump_udp_ow_11.c\<close> computes with \<^verbatim>\<open>int\<close> (32 bit) and \<^verbatim>\<open>long\<close> (64 bit, LP64).
  Values are modelled as \<^typ>\<open>int\<close>. C's \<^verbatim>\<open>/\<close> and \<^verbatim>\<open>%\<close> truncate towards zero: they
  are \<open>sdiv\<close> and \<open>smod\<close>. Where the size of an intermediate value is not obviously
  small, the two's complement wrap-around of a \<^verbatim>\<open>long\<close> is written out with
  \<open>long_of\<close>, and the theorems show that it never takes effect.
\<close>

definition long_of :: "int \<Rightarrow> int" where
  "long_of k = signed_take_bit 63 k"

section \<open>The virtual ring buffer\<close>

text \<open>
  \<^verbatim>\<open>struct vrb\<close>: the four \<^verbatim>\<open>long\<close> fields. The mapped memory \<^verbatim>\<open>buff\<close> and the unused
  \<^verbatim>\<open>filename\<close> are not part of the model; a pointer into the buffer is its offset
  from \<^verbatim>\<open>buff\<close>, and \<^verbatim>\<open>NULL\<close> is \<open>None\<close>.
\<close>

record vrb =
  fillsize :: int
  front :: int
  rear :: int
  totsize :: int

text \<open>
  \<^verbatim>\<open>init_vrb\<close>: \<^verbatim>\<open>i= getpagesize (); vrb->totsize= (minsize+i-1)/i * i;\<close> and, after the
  mappings, \<^verbatim>\<open>vrb->front= vrb->rear= vrb->fillsize= 0;\<close>. The page size is a parameter.
\<close>

definition init_vrb :: "int \<Rightarrow> int \<Rightarrow> vrb" where
  "init_vrb pagesize minsize =
     \<lparr>fillsize = 0, front = 0, rear = 0,
      totsize = (minsize + pagesize - 1) sdiv pagesize * pagesize\<rparr>"

definition vrb_poi_new :: "vrb \<Rightarrow> int \<Rightarrow> int option" where
  "vrb_poi_new v thissize =
     (if fillsize v + thissize > totsize v then None else Some (rear v))"

definition vrb_advance_new :: "vrb \<Rightarrow> int \<Rightarrow> vrb" where
  "vrb_advance_new v thissize =
     v\<lparr>rear := (rear v + thissize) smod totsize v,
       fillsize := fillsize v + thissize\<rparr>"

definition vrb_poi_old :: "vrb \<Rightarrow> int option" where
  "vrb_poi_old v = (if fillsize v = 0 then None else Some (front v))"

definition vrb_advance_old :: "vrb \<Rightarrow> int \<Rightarrow> vrb" where
  "vrb_advance_old v thissize =
     v\<lparr>front := (front v + thissize) smod totsize v,
       fillsize := fillsize v - thissize\<rparr>"

text \<open>
  The calls a client makes. \<open>PoiNew\<close> and \<open>PoiOld\<close> only return a pointer. A commit of
  \<open>n\<close> bytes is a successful \<^verbatim>\<open>vrb_poi_new\<close> for \<open>n\<close> followed by \<^verbatim>\<open>vrb_advance_new\<close>;
  a release is \<^verbatim>\<open>vrb_advance_old\<close> of at most the bytes in the buffer. A number of
  bytes is not negative. \<open>vrb_call\<close> is \<open>None\<close> where a call is outside this
  protocol.
\<close>

datatype vrb_op = PoiNew int | AdvanceNew int | PoiOld | AdvanceOld int

fun vrb_call :: "vrb \<Rightarrow> vrb_op \<Rightarrow> vrb option" where
  "vrb_call v (PoiNew n) = Some v"
| "vrb_call v (AdvanceNew n) =
     (if 0 \<le> n \<and> vrb_poi_new v n \<noteq> None then Some (vrb_advance_new v n) else None)"
| "vrb_call v PoiOld = Some v"
| "vrb_call v (AdvanceOld n) =
     (if 0 \<le> n \<and> n \<le> fillsize v then Some (vrb_advance_old v n) else None)"

fun vrb_run :: "vrb \<Rightarrow> vrb_op list \<Rightarrow> vrb option" where
  "vrb_run v [] = Some v"
| "vrb_run v (c # cs) =
     (case vrb_call v c of None \<Rightarrow> None | Some v' \<Rightarrow> vrb_run v' cs)"

text \<open>
  The invariant used throughout: the offsets stay inside the buffer, so every sum the
  four operations form is below \<open>2 * totsize\<close> and fits a \<^verbatim>\<open>long\<close>.
\<close>

definition vrb_inv :: "vrb \<Rightarrow> bool" where
  "vrb_inv v \<longleftrightarrow>
     0 < totsize v \<and> 0 \<le> fillsize v \<and> fillsize v \<le> totsize v \<and>
     0 \<le> front v \<and> front v < totsize v \<and>
     rear v = (front v + fillsize v) mod totsize v"


section \<open>Packet headers\<close>

text \<open>
  \<^verbatim>\<open>struct header_lofar\<close>, packed: a bit-field of width \<open>w\<close> is a \<open>w word\<close>,
  \<^verbatim>\<open>int32_t\<close> is a \<open>32 word\<close> read with \<open>sint\<close>.
\<close>

record header_lofar =
  version :: "8 word"
  rsp_id :: "5 word"
  unused1 :: "1 word"
  error :: "1 word"
  is200mhz :: "1 word"
  bm :: "2 word"
  unused2 :: "6 word"
  config :: "8 word"
  station :: "16 word"
  num_beamlets :: "8 word"
  num_slices :: "8 word"
  timestamp :: "32 word"
  sequence :: "32 word"

definition long_add :: "int \<Rightarrow> int \<Rightarrow> int" where
  "long_add a b = long_of (a + b)"

definition long_mul :: "int \<Rightarrow> int \<Rightarrow> int" where
  "long_mul a b = long_of (a * b)"

text \<open>
  \<^verbatim>\<open>return ((header->timestamp*1000000l*(160+40*header->source.is200mhz)+512)/1024
           +header->sequence)/16;\<close>
  The constant \<^verbatim>\<open>1000000l\<close> makes every operation but \<^verbatim>\<open>160+40*is200mhz\<close> one on
  \<^verbatim>\<open>long\<close>.
\<close>

definition beamformed_packno :: "header_lofar \<Rightarrow> int" where
  "beamformed_packno header =
     long_add
       (long_add
          (long_mul (long_mul (sint (timestamp header)) 1000000)
                    (160 + 40 * uint (is200mhz header)))
          512 sdiv 1024)
       (sint (sequence header)) sdiv 16"

definition beamformed_checkpack :: "header_lofar \<Rightarrow> bool" where
  "beamformed_checkpack header \<longleftrightarrow> error header = 0 \<and> timestamp header \<noteq> - 1"

text \<open>
  The formula of the specification, in its words: divide by 1024, then by 16, and add
  \<open>sequence / 16\<close> as a separate truncated term.
\<close>

definition spec_packno :: "header_lofar \<Rightarrow> int" where
  "spec_packno header =
     (sint (timestamp header) * 1000000 * (160 + 40 * uint (is200mhz header)) + 512)
        sdiv 1024 sdiv 16
     + sint (sequence header) sdiv 16"

definition example_header :: "int \<Rightarrow> int \<Rightarrow> header_lofar" where
  "example_header t q =
     \<lparr>version = 3, rsp_id = 0, unused1 = 0, error = 0, is200mhz = 1, bm = 0, unused2 = 0,
      config = 0, station = 0, num_beamlets = 61, num_slices = 16,
      timestamp = word_of_int t, sequence = word_of_int q\<rparr>"

section \<open>Options and program state\<close>

text \<open>
  The globals that \<^verbatim>\<open>main\<close> sets while it parses the options and that no thread
  changes afterwards are collected in \<open>options\<close>. The array \<^verbatim>\<open>portnos\<close> is a function
  on the socket index; \<^verbatim>\<open>maxfilesize\<close> is a \<^verbatim>\<open>double\<close> and is modelled as a real.
\<close>

record options =
  packlen :: int
  do_blocklen :: bool
  beamformed_check :: bool
  maxwrite :: int
  maxfilesize :: real
  stat_per_splitfile :: bool
  nsock :: nat
  portnos :: "nat \<Rightarrow> int"
  filename :: string

definition MMAXLEN :: int where
  "MMAXLEN = 10000"

definition SIGHUP :: int where "SIGHUP = 1"
definition SIGINT :: int where "SIGINT = 2"
definition SIGALRM :: int where "SIGALRM = 14"
definition SIGTERM :: int where "SIGTERM = 15"

text \<open>\<^verbatim>\<open>nsock==1 && portnos[0]==0\<close>: the single source is standard input.\<close>

definition stdin_mode :: "options \<Rightarrow> bool" where
  "stdin_mode c \<longleftrightarrow> nsock c = 1 \<and> portnos c 0 = 0"

text \<open>
  The globals the threads and the signal handler change. The output stream \<^verbatim>\<open>outf\<close>
  is \<open>None\<close> for \<^verbatim>\<open>NULL\<close> and otherwise holds the sizes of the \<^verbatim>\<open>fwrite\<close> calls made on
  the open file, oldest first; \<open>closed_files\<close> keeps the same for every file closed
  so far. The two counters of signals record the calls of \<^verbatim>\<open>pthread_cond_signal\<close> on
  \<^verbatim>\<open>data_available\<close> and \<^verbatim>\<open>space_available\<close>. Counters of type \<^verbatim>\<open>long\<close> are integers.
  File names, time stamps and printed reports are not modelled.
\<close>

record state =
  ringbuffer :: vrb
  stopped :: int
  outf :: "int list option"
  closed_files :: "int list list"
  bytes_written_thisfile :: int
  filenumber :: int
  totlen :: int
  lasttotlen :: int
  maxsize :: int
  sum_filllevel :: real
  n_filllevel :: int
  packs_seen :: "nat \<Rightarrow> int"
  packs_dropped :: "nat \<Rightarrow> int"
  bytes_written :: "nat \<Rightarrow> int"
  beamformed_good_packs :: "nat \<Rightarrow> int"
  beamformed_first_packno :: "nat \<Rightarrow> int"
  beamformed_last_packno :: "nat \<Rightarrow> int"
  last_packs_dropped :: "nat \<Rightarrow> int"
  last_packs_expected :: "nat \<Rightarrow> int"
  last_packs_seen :: "nat \<Rightarrow> int"
  last_good_packs :: "nat \<Rightarrow> int"
  data_available_signals :: nat
  space_available_signals :: nat

text \<open>What one pass through a thread's loop body leads to.\<close>

datatype 'a result = Running 'a | Waiting | ThreadExit 'a | ProcessExit

section \<open>Statistics and the signal handler\<close>

text \<open>\<^verbatim>\<open>init_thisfilestat\<close>: the body of its loop, then the loop and the scalars.\<close>

definition init_port :: "nat \<Rightarrow> state \<Rightarrow> state" where
  "init_port j s =
     s\<lparr>beamformed_first_packno := (beamformed_first_packno s)(j := - 1),
       bytes_written := (bytes_written s)(j := 0),
       packs_seen := (packs_seen s)(j := 0),
       packs_dropped := (packs_dropped s)(j := 0),
       beamformed_good_packs := (beamformed_good_packs s)(j := 0),
       last_packs_dropped := (last_packs_dropped s)(j := 0),
       last_packs_expected := (last_packs_expected s)(j := 0),
       last_packs_seen := (last_packs_seen s)(j := 0),
       last_good_packs := (last_good_packs s)(j := 0)\<rparr>"

definition init_thisfilestat :: "options \<Rightarrow> state \<Rightarrow> state" where
  "init_thisfilestat c s =
     (fold init_port [0..<nsock c] s)
       \<lparr>lasttotlen := 0, totlen := 0, maxsize := 0, sum_filllevel := 0, n_filllevel := 0\<rparr>"

text \<open>
  \<^verbatim>\<open>signal_handler\<close>. The loop over the sockets takes the snapshots for the next
  report; \<open>signal_data_available\<close> is \<^verbatim>\<open>pthread_cond_signal(&data_available)\<close>.
\<close>

definition snapshot_port :: "options \<Rightarrow> nat \<Rightarrow> state \<Rightarrow> state" where
  "snapshot_port c i s =
     (let s1 = (if totlen s \<noteq> 0 \<and> beamformed_check c
                then s\<lparr>last_packs_expected := (last_packs_expected s)
                          (i := beamformed_last_packno s i - beamformed_first_packno s i + 1),
                       last_good_packs := (last_good_packs s)(i := beamformed_good_packs s i)\<rparr>
                else s)
      in s1\<lparr>last_packs_dropped := (last_packs_dropped s1)(i := packs_dropped s1 i),
            last_packs_seen := (last_packs_seen s1)(i := packs_seen s1 i)\<rparr>)"

definition signal_data_available :: "state \<Rightarrow> state" where
  "signal_data_available s = s\<lparr>data_available_signals := Suc (data_available_signals s)\<rparr>"

definition signal_handler :: "options \<Rightarrow> int \<Rightarrow> state \<Rightarrow> state" where
  "signal_handler c signum s =
     (if signum < 0 \<and> outf s = None then
        (if stdin_mode c then signal_data_available (s\<lparr>stopped := 2\<rparr>) else s)
      else
        (let s1 = fold (snapshot_port c) [0..<nsock c] (s\<lparr>lasttotlen := totlen s\<rparr>)
         in if signum = SIGINT \<or> signum = SIGTERM \<or> signum = SIGALRM then
              signal_data_available (s1\<lparr>stopped := 2\<rparr>)
            else if signum = - 1 \<or> signum = SIGHUP then
              (if outf s1 \<noteq> None then
                 signal_data_available
                   (if signum < 0 then
                      (if stdin_mode c then s1\<lparr>stopped := 2\<rparr>
                       else if stopped s1 = 0 then s1\<lparr>stopped := 1\<rparr> else s1)
                    else if stopped s1 = 0 then s1\<lparr>stopped := 1\<rparr> else s1)
               else s1)
            else s1))"

section \<open>The producer\<close>

text \<open>
  The accounting of \<^verbatim>\<open>producer\<close> under \<^verbatim>\<open>if (beamformed_check)\<close>, for the packet whose
  header is \<open>header\<close>, received on socket \<open>i\<close>.
\<close>

definition account_beamformed :: "nat \<Rightarrow> header_lofar \<Rightarrow> state \<Rightarrow> state" where
  "account_beamformed i header s =
     (let s1 = s\<lparr>beamformed_last_packno :=
                   (beamformed_last_packno s)(i := beamformed_packno header)\<rparr>;
          s2 = (if beamformed_first_packno s1 i = - 1
                then s1\<lparr>beamformed_first_packno :=
                          (beamformed_first_packno s1)(i := beamformed_last_packno s1 i)\<rparr>
                else s1)
      in if beamformed_checkpack header
         then s2\<lparr>beamformed_good_packs :=
                   (beamformed_good_packs s2)(i := beamformed_good_packs s2 i + 1)\<rparr>
         else s2)"

text \<open>
  The body of the loop over the sockets from \<^verbatim>\<open>if (thissize)\<close> on: \<open>recvsize\<close> is what
  \<^verbatim>\<open>recvfrom\<close> or \<^verbatim>\<open>fread\<close> returned for source \<open>i\<close>, \<open>header\<close> the start of the
  data read. The branches are, in the order of the source: nothing read; discarded
  because the program stops; accepted (counted, then dropped or committed); wrong
  length. \<open>enq_size\<close> is \<^verbatim>\<open>thissize\<close> after \<^verbatim>\<open>if (do_blocklen) thissize+= 2;\<close>.
\<close>

definition enq_size :: "options \<Rightarrow> int \<Rightarrow> int" where
  "enq_size c recvsize = (if do_blocklen c then recvsize + 2 else recvsize)"

text \<open>The branch \<^verbatim>\<open>else /* enough space */\<close>: commit, signal, count the bytes.\<close>

definition commit :: "nat \<Rightarrow> int \<Rightarrow> state \<Rightarrow> state" where
  "commit i thissize s =
     (let s1 = s\<lparr>ringbuffer := vrb_advance_new (ringbuffer s) thissize\<rparr>;
          s2 = (if fillsize (ringbuffer s1) > maxsize s1
                then s1\<lparr>maxsize := fillsize (ringbuffer s1)\<rparr> else s1)
      in (signal_data_available s2)
           \<lparr>totlen := totlen s2 + thissize,
            bytes_written := (bytes_written s2)(i := bytes_written s2 i + thissize)\<rparr>)"

text \<open>The block for an accepted packet, from \<^verbatim>\<open>if (beamformed_check)\<close> on.\<close>

definition store :: "options \<Rightarrow> nat \<Rightarrow> int \<Rightarrow> header_lofar \<Rightarrow> state \<Rightarrow> state" where
  "store c i thissize header s =
     (let s1 = (if beamformed_check c then account_beamformed i header s else s);
          s2 = s1\<lparr>packs_seen := (packs_seen s1)(i := packs_seen s1 i + 1)\<rparr>;
          newpoi = vrb_poi_new (ringbuffer s2) thissize;
          s3 = s2\<lparr>sum_filllevel := sum_filllevel s2 +
                     real_of_int (fillsize (ringbuffer s2)) /
                     real_of_int (totsize (ringbuffer s2)),
                   n_filllevel := n_filllevel s2 + 1\<rparr>
      in if newpoi = None then
           s3\<lparr>packs_dropped := (packs_dropped s3)(i := packs_dropped s3 i + 1)\<rparr>
         else commit i thissize s3)"

text \<open>
  The same block from \<^verbatim>\<open>packs_seen[i]++\<close> on, that is, without the accounting under
  \<^verbatim>\<open>if (beamformed_check)\<close> that precedes it. It serves to describe a state inside the
  block, between the accounting and the count.
\<close>

definition count_and_store :: "options \<Rightarrow> nat \<Rightarrow> int \<Rightarrow> state \<Rightarrow> state" where
  "count_and_store c i thissize s =
     (let s2 = s\<lparr>packs_seen := (packs_seen s)(i := packs_seen s i + 1)\<rparr>;
          newpoi = vrb_poi_new (ringbuffer s2) thissize;
          s3 = s2\<lparr>sum_filllevel := sum_filllevel s2 +
                     real_of_int (fillsize (ringbuffer s2)) /
                     real_of_int (totsize (ringbuffer s2)),
                   n_filllevel := n_filllevel s2 + 1\<rparr>
      in if newpoi = None then
           s3\<lparr>packs_dropped := (packs_dropped s3)(i := packs_dropped s3 i + 1)\<rparr>
         else commit i thissize s3)"

definition enqueue :: "options \<Rightarrow> nat \<Rightarrow> int \<Rightarrow> header_lofar \<Rightarrow> state \<Rightarrow> state" where
  "enqueue c i recvsize header s =
     (if recvsize = 0 then s
      else if stopped s = 2 then s
      else if packlen c = 0 \<or> recvsize = packlen c then
        store c i (enq_size c recvsize) header s
      else s)"

text \<open>The condition under which \<open>enqueue\<close> takes the accepted branch.\<close>

definition accepts :: "options \<Rightarrow> state \<Rightarrow> int \<Rightarrow> bool" where
  "accepts c s recvsize \<longleftrightarrow>
     recvsize \<noteq> 0 \<and> stopped s \<noteq> 2 \<and> (packlen c = 0 \<or> recvsize = packlen c)"

text \<open>
  A sequence of packets, each with its socket, its length and its header, passed
  through \<open>enqueue\<close> in the order of arrival; and the packet numbers of those among
  them that socket \<open>i\<close> accepts.
\<close>

fun enqueue_list :: "options \<Rightarrow> (nat \<times> nat \<times> header_lofar) list \<Rightarrow> state \<Rightarrow> state" where
  "enqueue_list c [] s = s"
| "enqueue_list c ((i, n, header) # ps) s =
     enqueue_list c ps (enqueue c i (int n) header s)"

definition port_packnos ::
  "options \<Rightarrow> state \<Rightarrow> nat \<Rightarrow> (nat \<times> nat \<times> header_lofar) list \<Rightarrow> int list" where
  "port_packnos c s i ps =
     map (\<lambda>(j, n, header). beamformed_packno header)
       (filter (\<lambda>(j, n, header). j = i \<and> accepts c s (int n)) ps)"

text \<open>
  What \<^verbatim>\<open>recvfrom\<close> gives for one socket after \<^verbatim>\<open>pselect\<close>: the socket is not in the
  ready set, or the call fails (it returns \<open>- 1\<close>), or it returns the length of the
  datagram, with its data.
\<close>

datatype recv = NotReady | RecvError | Recvfrom nat header_lofar

fun recv_all :: "options \<Rightarrow> (nat \<Rightarrow> recv) \<Rightarrow> nat list \<Rightarrow> state \<Rightarrow> state result" where
  "recv_all c rd [] s = Running s"
| "recv_all c rd (i # js) s =
     (case rd i of
        NotReady \<Rightarrow> recv_all c rd js s
      | RecvError \<Rightarrow> ProcessExit
      | Recvfrom n header \<Rightarrow>
          if int n \<ge> MMAXLEN then ProcessExit
          else recv_all c rd js (enqueue c i (int n) header s))"

datatype pselect = PselectFail | PselectTimeout | PselectReady "nat \<Rightarrow> recv"

text \<open>
  What the system reports to \<^verbatim>\<open>producer\<close> in one pass on the sockets: whether \<^verbatim>\<open>close\<close>
  succeeds on every socket, and the outcome of \<^verbatim>\<open>pselect\<close> with the data behind it.
\<close>

record net =
  close_ok :: bool
  pselect_ret :: pselect

text \<open>\<^verbatim>\<open>if (totlen-lasttotlen>1e9) signal_handler (0);\<close> at the head of the loop.\<close>

definition regular_printout :: "options \<Rightarrow> state \<Rightarrow> state" where
  "regular_printout c s =
     (if totlen s - lasttotlen s > 1000000000 then signal_handler c 0 s else s)"

text \<open>
  One pass through the loop of \<^verbatim>\<open>producer\<close> when it reads standard input: \<open>n\<close> is the
  result of \<^verbatim>\<open>fread (buff2, 1, packlen, stdin)\<close>. The thread is \<open>Waiting\<close> while
  \<^verbatim>\<open>vrb_poi_new (&ringbuffer, packlen)\<close> is \<^verbatim>\<open>NULL\<close>.
\<close>

definition producer_stdin :: "options \<Rightarrow> nat \<Rightarrow> header_lofar \<Rightarrow> state \<Rightarrow> state result" where
  "producer_stdin c n header s0 =
     (let s = regular_printout c s0
      in if stopped s \<noteq> 0 then Running s
         else if vrb_poi_new (ringbuffer s) (packlen c) = None then Waiting
         else if n = 0 then Running (signal_handler c (- 1) s)
         else Running (enqueue c 0 (int n) header s))"

text \<open>One pass through the loop of \<^verbatim>\<open>producer\<close> when it reads from sockets.\<close>

definition producer_udp :: "options \<Rightarrow> net \<Rightarrow> state \<Rightarrow> state result" where
  "producer_udp c sel s0 =
     (let s = regular_printout c s0
      in if stopped s = 2 then (if close_ok sel then ThreadExit s else ProcessExit)
         else (case pselect_ret sel of
                 PselectFail \<Rightarrow> ProcessExit
               | PselectTimeout \<Rightarrow>
                   recv_all c (\<lambda>i. NotReady) [0..<nsock c] (signal_handler c (- 1) s)
               | PselectReady rd \<Rightarrow> recv_all c rd [0..<nsock c] s))"

section \<open>The consumer\<close>

text \<open>
  What the C library reports to \<^verbatim>\<open>consumer\<close> in one pass: whether \<^verbatim>\<open>fclose\<close> or
  \<^verbatim>\<open>pclose\<close> succeeds, whether \<^verbatim>\<open>fopen\<close> or \<^verbatim>\<open>popen\<close> does, and what \<^verbatim>\<open>fwrite\<close>
  returns.
\<close>

record io =
  fclose_ok :: bool
  fopen_ok :: bool
  fwrite_ret :: int

text \<open>
  \<^verbatim>\<open>start_file\<close>: the file number is used up unless the name is \<^verbatim>\<open>/dev/null\<close>, the
  byte count of the file starts at 0, and a failure to open ends the process
  (\<open>None\<close>).
\<close>

definition start_file :: "options \<Rightarrow> io \<Rightarrow> state \<Rightarrow> state option" where
  "start_file c e s =
     (let s1 = (if filename c = ''/dev/null'' then s
                else if filenumber s \<ge> 0 then s\<lparr>filenumber := filenumber s + 1\<rparr>
                else s);
          s2 = s1\<lparr>bytes_written_thisfile := 0\<rparr>
      in if fopen_ok e then Some (s2\<lparr>outf := Some []\<rparr>) else None)"

text \<open>
  The block of \<^verbatim>\<open>consumer\<close> that ends a file: statistics are reset unless this is a
  split with combined statistics, the file is closed, and after a split the next
  file is started at once (\<^verbatim>\<open>assert (filenumber>=0)\<close>).
\<close>

definition close_file :: "options \<Rightarrow> io \<Rightarrow> int \<Rightarrow> state \<Rightarrow> state option" where
  "close_file c e my_stopped s =
     (let s1 = (if my_stopped \<noteq> - 1 \<or> stat_per_splitfile c
                then init_thisfilestat c s else s)
      in if \<not> fclose_ok e then None
         else
           (let s2 = s1\<lparr>closed_files := closed_files s1 @
                          (case outf s1 of None \<Rightarrow> [] | Some ws \<Rightarrow> [ws]),
                        outf := None\<rparr>
            in if my_stopped = - 1
               then (if filenumber s2 \<ge> 0 then start_file c e s2 else None)
               else Some s2))"

text \<open>
  The size of the block that is written, from the fill level read under the mutex:
  \<^verbatim>\<open>if (thissize>maxwrite) thissize= maxwrite;
  if (packlen) thissize= (thissize/packlen)*packlen;\<close>
\<close>

definition write_size :: "options \<Rightarrow> int \<Rightarrow> int" where
  "write_size c fill =
     (let thissize = (if fill > maxwrite c then maxwrite c else fill)
      in if packlen c \<noteq> 0 then (thissize sdiv packlen c) * packlen c else thissize)"

text \<open>
  The rest of the pass once data is available: open a file if none is open, write
  the block (a short write ends the process), count it and release it.
\<close>

definition write_block :: "options \<Rightarrow> io \<Rightarrow> state \<Rightarrow> state result" where
  "write_block c e s =
     (let fill = fillsize (ringbuffer s) in
      case (if outf s = None
            then start_file c e (if filenumber s > 0 then s\<lparr>filenumber := 0\<rparr> else s)
            else Some s) of
        None \<Rightarrow> ProcessExit
      | Some s1 \<Rightarrow>
          (let thissize = write_size c fill
           in if fwrite_ret e \<noteq> thissize then ProcessExit
              else Running
                (s1\<lparr>outf := map_option (\<lambda>ws. ws @ [thissize]) (outf s1),
                    bytes_written_thisfile := bytes_written_thisfile s1 + thissize,
                    ringbuffer := vrb_advance_old (ringbuffer s1) thissize,
                    space_available_signals := Suc (space_available_signals s1)\<rparr>)))"

text \<open>
  The blocks of one pass through the loop of \<^verbatim>\<open>consumer\<close>, in the order of the source.
  \<open>local_stopped\<close> is \<^verbatim>\<open>my_stopped\<close> after the test of the file size. \<open>end_file\<close> is the
  block under \<^verbatim>\<open>/* end file if wanted */\<close>; \<open>drained\<close> stands for \<^verbatim>\<open>oldpoi==NULL\<close>.
  \<open>clear_stopped\<close> is the block that resets \<^verbatim>\<open>stopped\<close> under \<^verbatim>\<open>stopped_mutex\<close>.
\<close>

definition local_stopped :: "options \<Rightarrow> state \<Rightarrow> int" where
  "local_stopped c s =
     (if stopped s = 0 \<and> maxfilesize c > 0 \<and>
         real_of_int (bytes_written_thisfile s) > maxfilesize c
      then - 1 else stopped s)"

definition end_file :: "options \<Rightarrow> io \<Rightarrow> int \<Rightarrow> bool \<Rightarrow> state \<Rightarrow> state option" where
  "end_file c e my_stopped drained s =
     (if ((my_stopped = 2 \<and> drained) \<or> \<bar>my_stopped\<bar> = 1) \<and> outf s \<noteq> None
      then close_file c e my_stopped s else Some s)"

definition clear_stopped :: "int \<Rightarrow> state \<Rightarrow> state" where
  "clear_stopped old_stopped s =
     (if stopped s = old_stopped
      then (if stopped s \<noteq> 2 then s\<lparr>stopped := 0\<rparr> else s)
      else s)"

text \<open>
  One pass through the loop of \<^verbatim>\<open>consumer\<close>. The thread is \<open>Waiting\<close> on
  \<^verbatim>\<open>data_available\<close> while the buffer is empty and \<^verbatim>\<open>stopped\<close> is 0.
\<close>

definition consumer :: "options \<Rightarrow> io \<Rightarrow> state \<Rightarrow> state result" where
  "consumer c e s =
     (let oldpoi = vrb_poi_old (ringbuffer s) in
      if oldpoi = None \<and> stopped s = 0 then Waiting
      else
        (let old_stopped = stopped s;
             my_stopped = local_stopped c s
         in case end_file c e my_stopped (oldpoi = None) s of
              None \<Rightarrow> ProcessExit
            | Some s1 \<Rightarrow>
                if my_stopped = 2 \<and> oldpoi = None then ThreadExit s1
                else
                  (let s2 = clear_stopped old_stopped s1
                   in if oldpoi = None then Running s2 else write_block c e s2)))"

text \<open>
  All files written so far, the open one last; the number of bytes in them; and the
  offsets in a file at which its blocks begin and end.
\<close>

definition files :: "state \<Rightarrow> int list list" where
  "files s = closed_files s @ (case outf s of None \<Rightarrow> [] | Some ws \<Rightarrow> [ws])"

definition total_written :: "state \<Rightarrow> int" where
  "total_written s = sum_list (map sum_list (files s))"

definition offsets :: "int list \<Rightarrow> int list" where
  "offsets ws = map (\<lambda>k. sum_list (take k ws)) [0..<Suc (length ws)]"

section \<open>Runs of the program\<close>

text \<open>
  The threads and the signal handler share the state; a run is a sequence of their
  passes, each taken as one step: a pass of the producer on standard input or on
  the sockets, a pass of the consumer, the delivery of one of the signals that
  \<^verbatim>\<open>main\<close> installs the handler for. A pass that waits or that ends the process has
  no next state. \<^verbatim>\<open>fread\<close> is asked for \<^verbatim>\<open>packlen\<close> bytes and returns no more.
\<close>

datatype event = Stdin nat header_lofar | Udp net | Consume io | Signal int

fun next_state :: "state result \<Rightarrow> state option" where
  "next_state (Running s) = Some s"
| "next_state (ThreadExit s) = Some s"
| "next_state Waiting = None"
| "next_state ProcessExit = None"

fun step :: "options \<Rightarrow> state \<Rightarrow> event \<Rightarrow> state option" where
  "step c s (Stdin n header) =
     (if stdin_mode c \<and> int n \<le> packlen c then next_state (producer_stdin c n header s)
      else None)"
| "step c s (Udp sel) =
     (if \<not> stdin_mode c then next_state (producer_udp c sel s) else None)"
| "step c s (Consume e) = next_state (consumer c e s)"
| "step c s (Signal signum) =
     (if signum = SIGHUP \<or> signum = SIGINT \<or> signum = SIGTERM \<or> signum = SIGALRM
      then Some (signal_handler c signum s) else None)"

fun run :: "options \<Rightarrow> state \<Rightarrow> event list \<Rightarrow> state option" where
  "run c s [] = Some s"
| "run c s (ev # evs) = (case step c s ev of None \<Rightarrow> None | Some s' \<Rightarrow> run c s' evs)"

text \<open>
  The state in which \<^verbatim>\<open>main\<close> starts the threads: the buffer from \<^verbatim>\<open>init_vrb\<close>, no
  file open, the statistics from \<^verbatim>\<open>init_thisfilestat\<close>, \<^verbatim>\<open>filenumber\<close> 0 when files
  are split and \<open>- 1\<close> otherwise.
\<close>

definition zero_state :: "int \<Rightarrow> int \<Rightarrow> state" where
  "zero_state pagesize bufsize =
     \<lparr>ringbuffer = init_vrb pagesize bufsize, stopped = 0, outf = None, closed_files = [],
      bytes_written_thisfile = 0, filenumber = 0, totlen = 0, lasttotlen = 0, maxsize = 0,
      sum_filllevel = 0, n_filllevel = 0,
      packs_seen = (\<lambda>i. 0), packs_dropped = (\<lambda>i. 0), bytes_written = (\<lambda>i. 0),
      beamformed_good_packs = (\<lambda>i. 0), beamformed_first_packno = (\<lambda>i. 0),
      beamformed_last_packno = (\<lambda>i. 0), last_packs_dropped = (\<lambda>i. 0),
      last_packs_expected = (\<lambda>i. 0), last_packs_seen = (\<lambda>i. 0),
      last_good_packs = (\<lambda>i. 0),
      data_available_signals = 0, space_available_signals = 0\<rparr>"

definition initial_state :: "options \<Rightarrow> int \<Rightarrow> int \<Rightarrow> state" where
  "initial_state c pagesize bufsize =
     init_thisfilestat c
       ((zero_state pagesize bufsize)
          \<lparr>filenumber := (if maxfilesize c > 0 then 0 else - 1)\<rparr>)"

section \<open>Parsing of the options\<close>

text \<open>
  The checks \<^verbatim>\<open>main\<close> makes on the value \<^verbatim>\<open>sscanf\<close> has read for \<^verbatim>\<open>--len\<close>,
  \<^verbatim>\<open>--maxwrite\<close> and \<^verbatim>\<open>--Maxfilesize\<close>. \<open>Rejected\<close> is the usage message and
  \<^verbatim>\<open>exit (1)\<close>. \<open>Undefined\<close> is a conversion whose result ISO C does not define.
\<close>

datatype 'a parsed = Accepted 'a | Rejected | Undefined

definition option_l :: "bool \<Rightarrow> int \<Rightarrow> int parsed" where
  "option_l check v =
     (if v \<le> 0 \<or> v \<ge> MMAXLEN then Rejected
      else if check \<and> v \<noteq> 7824 then Rejected
      else Accepted v)"

definition option_m :: "int \<Rightarrow> int parsed" where
  "option_m v = (if v \<le> 1024 then Rejected else Accepted v)"

text \<open>
  \<^verbatim>\<open>maxfilesize= abs (maxfilesize);\<close> calls \<^verbatim>\<open>int abs (int)\<close> of \<^verbatim>\<open>stdlib.h\<close>: the
  \<^verbatim>\<open>double\<close> is converted to \<^verbatim>\<open>int\<close>, which discards the fraction and is undefined
  outside the range of \<^verbatim>\<open>int\<close>, and the result is converted back.
\<close>

definition double_to_int :: "real \<Rightarrow> int option" where
  "double_to_int x =
     (let t = (if 0 \<le> x then \<lfloor>x\<rfloor> else \<lceil>x\<rceil>)
      in if - (2 ^ 31) \<le> t \<and> t < 2 ^ 31 then Some t else None)"

definition c_abs :: "int \<Rightarrow> int option" where
  "c_abs k = (if k = - (2 ^ 31) then None else Some \<bar>k\<bar>)"

text \<open>The result is the pair of \<^verbatim>\<open>maxfilesize\<close> and \<^verbatim>\<open>stat_per_splitfile\<close>.\<close>

definition option_M :: "real \<Rightarrow> (real \<times> bool) parsed" where
  "option_M v =
     (if v = 0 then Rejected
      else (case double_to_int v of
              None \<Rightarrow> Undefined
            | Some k \<Rightarrow>
                (case c_abs k of
                   None \<Rightarrow> Undefined
                 | Some a \<Rightarrow> Accepted (real_of_int a, v > 0))))"

section \<open>Example inputs\<close>

text \<open>The options as \<^verbatim>\<open>main\<close> sets them when the command line is empty.\<close>

definition default_options :: options where
  "default_options =
     \<lparr>packlen = 0, do_blocklen = False, beamformed_check = False, maxwrite = 1048576,
      maxfilesize = 0, stat_per_splitfile = True, nsock = 1, portnos = (\<lambda>i. 4346),
      filename = ''udp''\<rparr>"

text \<open>
  Standard input with \<^verbatim>\<open>--len 6143 --sizehead\<close>, and a socket with \<^verbatim>\<open>--check\<close>.
\<close>

definition stdin_options :: options where
  "stdin_options =
     default_options\<lparr>packlen := 6143, do_blocklen := True, portnos := (\<lambda>i. 0)\<rparr>"

definition check_options :: options where
  "check_options = default_options\<lparr>packlen := 7824, beamformed_check := True\<rparr>"

text \<open>A state whose buffer of three pages is full, and one with a file open.\<close>

definition full_state :: state where
  "full_state =
     (zero_state 4096 10001)
       \<lparr>ringbuffer := \<lparr>fillsize = 12288, front = 100, rear = 100, totsize = 12288\<rparr>\<rparr>"


text \<open>
  A fixed packet length below and above \<^verbatim>\<open>maxwrite\<close>, library calls that succeed, a
  datagram that is ready on every socket, and a state whose buffer holds 2500 bytes.
\<close>

definition len_options :: options where
  "len_options = default_options\<lparr>packlen := 1000, maxwrite := 2048\<rparr>"

definition long_len_options :: options where
  "long_len_options = default_options\<lparr>packlen := 5000, maxwrite := 2000\<rparr>"

definition io_ok :: "int \<Rightarrow> io" where
  "io_ok n = \<lparr>fclose_ok = True, fopen_ok = True, fwrite_ret = n\<rparr>"

definition datagram :: "nat \<Rightarrow> header_lofar \<Rightarrow> net" where
  "datagram n header =
     \<lparr>close_ok = True, pselect_ret = PselectReady (\<lambda>i. Recvfrom n header)\<rparr>"

definition partly_filled :: state where
  "partly_filled =
     (zero_state 4096 10001)
       \<lparr>ringbuffer := \<lparr>fillsize = 2500, front = 12000, rear = 2212, totsize = 12288\<rparr>\<rparr>"

section \<open>Notions of the specification\<close>

text \<open>
  The size of a block in the words of the specification: let \<open>chunk = min (fill, maxwrite)\<close>;
  if \<open>L > 0\<close>, round \<open>chunk\<close> down to the nearest multiple of \<open>L\<close>.
\<close>

definition spec_chunk :: "int \<Rightarrow> int \<Rightarrow> int \<Rightarrow> int" where
  "spec_chunk fill maxwr L =
     (let chunk = min fill maxwr in if L > 0 then chunk div L * L else chunk)"

text \<open>
  A state before any data has arrived: the buffer is empty and nothing has been written,
  whether or not \<^verbatim>\<open>main\<close> has already opened the first file for \<^verbatim>\<open>--Start\<close>.
\<close>

definition fresh :: "state \<Rightarrow> bool" where
  "fresh s \<longleftrightarrow>
     fillsize (ringbuffer s) = 0 \<and> bytes_written_thisfile s = 0 \<and> closed_files s = [] \<and>
     (outf s = None \<or> outf s = Some [])"

section \<open>The counters of one port along a run\<close>

text \<open>
  The header of the packet that one pass of the producer, begun in state \<open>s\<close>, accepts
  on socket \<open>i\<close>, if it accepts one; and the packet numbers of the packets accepted on
  socket \<open>i\<close> along a run, in the order of the run.
\<close>

fun delivered :: "options \<Rightarrow> nat \<Rightarrow> state \<Rightarrow> event \<Rightarrow> header_lofar option" where
  "delivered c i s (Stdin n header) =
     (if i = 0 \<and> stopped s = 0 \<and> accepts c s (int n) then Some header else None)"
| "delivered c i s (Udp e) =
     (case pselect_ret e of
        PselectReady rd \<Rightarrow>
          (case rd i of
             Recvfrom n header \<Rightarrow>
               if i < nsock c \<and> accepts c s (int n) then Some header else None
           | _ \<Rightarrow> None)
      | _ \<Rightarrow> None)"
| "delivered c i s (Consume e) = None"
| "delivered c i s (Signal k) = None"

fun run_packnos :: "options \<Rightarrow> nat \<Rightarrow> state \<Rightarrow> event list \<Rightarrow> int list" where
  "run_packnos c i s [] = []"
| "run_packnos c i s (ev # evs) =
     (case step c s ev of
        None \<Rightarrow> []
      | Some s' \<Rightarrow>
          (case delivered c i s ev of
             None \<Rightarrow> []
           | Some header \<Rightarrow> [beamformed_packno header])
          @ run_packnos c i s' evs)"

text \<open>
  What a pass can do to the four counters of port \<open>i\<close> that the beamformed check keeps:
  leave them, count the packet with header \<open>header\<close>, or reset them as
  \<^verbatim>\<open>init_thisfilestat\<close> does. \<open>same_counters\<close> is the first of these for all ports.
\<close>

definition port_same :: "nat \<Rightarrow> state \<Rightarrow> state \<Rightarrow> bool" where
  "port_same i s s' \<longleftrightarrow>
     packs_seen s' i = packs_seen s i \<and>
     beamformed_good_packs s' i = beamformed_good_packs s i \<and>
     beamformed_first_packno s' i = beamformed_first_packno s i \<and>
     beamformed_last_packno s' i = beamformed_last_packno s i"

definition port_counted :: "nat \<Rightarrow> header_lofar \<Rightarrow> state \<Rightarrow> state \<Rightarrow> bool" where
  "port_counted i header s s' \<longleftrightarrow>
     packs_seen s' i = packs_seen s i + 1 \<and>
     beamformed_good_packs s' i =
       beamformed_good_packs s i + (if beamformed_checkpack header then 1 else 0) \<and>
     beamformed_first_packno s' i =
       (if beamformed_first_packno s i = - 1 then beamformed_packno header
        else beamformed_first_packno s i) \<and>
     beamformed_last_packno s' i = beamformed_packno header"

definition port_reset :: "nat \<Rightarrow> state \<Rightarrow> state \<Rightarrow> bool" where
  "port_reset i s s' \<longleftrightarrow>
     packs_seen s' i = 0 \<and> beamformed_good_packs s' i = 0 \<and>
     beamformed_first_packno s' i = - 1 \<and>
     beamformed_last_packno s' i = beamformed_last_packno s i"

definition same_counters :: "state \<Rightarrow> state \<Rightarrow> bool" where
  "same_counters s s' \<longleftrightarrow>
     packs_seen s' = packs_seen s \<and>
     beamformed_good_packs s' = beamformed_good_packs s \<and>
     beamformed_first_packno s' = beamformed_first_packno s \<and>
     beamformed_last_packno s' = beamformed_last_packno s"

section \<open>Properties of the ring buffer\<close>

lemma totsize_init_vrb:
  assumes "0 < pagesize" and "0 < minsize"
  shows "0 < totsize (init_vrb pagesize minsize)"
proof -
  have nn: "0 \<le> minsize + pagesize - 1" using assms by simp
  have "(minsize + pagesize - 1) sdiv pagesize = (minsize + pagesize - 1) div pagesize"
    using assms nn by (simp add: signed_divide_int_def sgn_if)
  moreover have "0 < (minsize + pagesize - 1) div pagesize"
    using assms by (simp add: pos_imp_zdiv_pos_iff)
  ultimately show ?thesis
    using assms by (simp add: init_vrb_def)
qed

lemma vrb_inv_init:
  "0 < pagesize \<Longrightarrow> 0 < minsize \<Longrightarrow> vrb_inv (init_vrb pagesize minsize)"
  using totsize_init_vrb [of pagesize minsize]
  by (simp add: vrb_inv_def) (simp add: init_vrb_def)

lemma vrb_inv_advance_new:
  assumes "vrb_inv v" and "0 \<le> n" and "fillsize v + n \<le> totsize v"
  shows "vrb_inv (vrb_advance_new v n)"
proof -
  have t: "0 < totsize v" and r: "rear v = (front v + fillsize v) mod totsize v"
    using assms(1) by (simp_all add: vrb_inv_def)
  have "0 \<le> rear v" using t r by simp
  then have "(rear v + n) smod totsize v = (rear v + n) mod totsize v"
    using t assms(2) by (simp add: smod_mod_positive)
  also have "\<dots> = (front v + (fillsize v + n)) mod totsize v"
    by (simp add: r mod_add_left_eq add.assoc)
  finally show ?thesis
    using assms by (simp add: vrb_inv_def vrb_advance_new_def)
qed

lemma vrb_inv_advance_old:
  assumes "vrb_inv v" and "0 \<le> n" and "n \<le> fillsize v"
  shows "vrb_inv (vrb_advance_old v n)"
proof -
  have t: "0 < totsize v" and r: "rear v = (front v + fillsize v) mod totsize v"
    and f: "0 \<le> front v"
    using assms(1) by (simp_all add: vrb_inv_def)
  have s: "(front v + n) smod totsize v = (front v + n) mod totsize v"
    using t f assms(2) by (simp add: smod_mod_positive)
  have "((front v + n) mod totsize v + (fillsize v - n)) mod totsize v
          = (front v + n + (fillsize v - n)) mod totsize v"
    by (simp add: mod_add_left_eq)
  then have "rear v = ((front v + n) mod totsize v + (fillsize v - n)) mod totsize v"
    by (simp add: r)
  then show ?thesis
    using assms t by (simp add: vrb_inv_def vrb_advance_old_def s)
qed

lemma vrb_inv_call:
  "vrb_inv v \<Longrightarrow> vrb_call v c = Some v' \<Longrightarrow> vrb_inv v'"
  by (cases c)
     (auto simp: vrb_poi_new_def vrb_inv_advance_new vrb_inv_advance_old split: if_splits)

lemma vrb_inv_run:
  "vrb_inv v \<Longrightarrow> vrb_run v cs = Some v' \<Longrightarrow> vrb_inv v'"
proof (induction cs arbitrary: v)
  case Nil
  then show ?case by simp
next
  case (Cons c cs)
  then show ?case
    by (auto split: option.splits dest: vrb_inv_call)
qed

text \<open>
  C1. Starting from the buffer that \<^verbatim>\<open>init_vrb\<close> sets up (front = rear = fillsize = 0),
  after any sequence of the four operations (a commit of \<open>n\<close> bytes after a successful
  \<^verbatim>\<open>vrb_poi_new\<close> for \<open>n\<close>, a release of \<open>n \<le> fillsize\<close> bytes) the buffer satisfies
  \<open>0 \<le> fillsize \<le> totsize\<close> and \<open>rear = (front + fillsize) mod totsize\<close>.
\<close>

theorem vrb_invariant:
  assumes "0 < pagesize" and "0 < minsize"
    and "vrb_run (init_vrb pagesize minsize) cs = Some v"
  shows "0 \<le> fillsize v \<and> fillsize v \<le> totsize v \<and>
         rear v = (front v + fillsize v) mod totsize v"
proof -
  have "vrb_inv v"
    using assms vrb_inv_init vrb_inv_run by blast
  then show ?thesis by (simp add: vrb_inv_def)
qed

theorem vrb_invariant_witness:
  "(0::int) < 4096 \<and> (0::int) < 10001 \<and>
   vrb_run (init_vrb 4096 10001) [PoiNew 7824, AdvanceNew 7824, PoiOld, AdvanceOld 7000,
                                  AdvanceNew 7824, AdvanceOld 8648]
     = Some \<lparr>fillsize = 0, front = 3360, rear = 3360, totsize = 12288\<rparr> \<and>
   (0::int) \<le> 0 \<and> (0::int) \<le> 12288 \<and> (3360::int) = (3360 + 0) mod 12288"
  using vrb_invariant [of 4096 10001
      "[PoiNew 7824, AdvanceNew 7824, PoiOld, AdvanceOld 7000, AdvanceNew 7824, AdvanceOld 8648]"
      "\<lparr>fillsize = 0, front = 3360, rear = 3360, totsize = 12288\<rparr>"]
  by (simp add: init_vrb_def vrb_poi_new_def vrb_advance_new_def vrb_advance_old_def)


section \<open>The packet number\<close>

lemma long_of_id: "- (2 ^ 63) \<le> k \<Longrightarrow> k < 2 ^ 63 \<Longrightarrow> long_of k = k"
  by (simp add: long_of_def signed_take_bit_int_eq_self)

lemma sdiv_abs_le: "\<bar>a sdiv b\<bar> \<le> \<bar>a\<bar>" for a b :: int
  using sdiv_int_range [of a b] by auto

lemma uint_bit_le: "uint (w :: 1 word) \<le> 1"
  using uint_lt2p [of w] by simp

text \<open>
  C2, as amended. For every header the packet number that \<^verbatim>\<open>beamformed_packno\<close>
  computes in \<^verbatim>\<open>long\<close> arithmetic is, without any overflow,
  \<open>((timestamp * 1000000 * (160 + 40 * is200mhz) + 512) / 1024 + sequence) / 16\<close> with
  truncating division: the sequence number is added before the one division by 16.
\<close>

theorem packno_formula:
  "beamformed_packno header =
     ((sint (timestamp header) * 1000000 * (160 + 40 * uint (is200mhz header)) + 512)
        sdiv 1024 + sint (sequence header)) sdiv 16"
proof -
  define t where "t = sint (timestamp header)"
  define q where "q = sint (sequence header)"
  define b where "b = uint (is200mhz header)"
  have tb: "- (2 ^ 31) \<le> t" "t < 2 ^ 31"
    using sint_ge [of "timestamp header"] sint_less [of "timestamp header"]
    by (simp_all add: t_def)
  have qb: "- (2 ^ 31) \<le> q" "q < 2 ^ 31"
    using sint_ge [of "sequence header"] sint_less [of "sequence header"]
    by (simp_all add: q_def)
  have bb: "0 \<le> b" "b \<le> 1"
    using uint_bit_le [of "is200mhz header"] by (simp_all add: b_def)
  have 1: "long_mul t 1000000 = t * 1000000"
    unfolding long_mul_def using tb by (intro long_of_id) simp_all
  have fb: "0 < 160 + 40 * b" "160 + 40 * b \<le> 200" using bb by simp_all
  have "\<bar>t * 1000000 * (160 + 40 * b)\<bar> = \<bar>t\<bar> * 1000000 * (160 + 40 * b)"
    using fb by (simp add: abs_mult)
  also have "\<dots> \<le> 2 ^ 31 * 1000000 * 200"
    using tb fb by (intro mult_mono) simp_all
  finally have pb: "\<bar>t * 1000000 * (160 + 40 * b)\<bar> \<le> 2 ^ 31 * 1000000 * 200" .
  have 2: "long_mul (t * 1000000) (160 + 40 * b) = t * 1000000 * (160 + 40 * b)"
    unfolding long_mul_def using pb by (intro long_of_id) simp_all
  have 3: "long_add (t * 1000000 * (160 + 40 * b)) 512 = t * 1000000 * (160 + 40 * b) + 512"
    unfolding long_add_def using pb by (intro long_of_id) simp_all
  have db: "\<bar>(t * 1000000 * (160 + 40 * b) + 512) sdiv 1024\<bar> \<le> 2 ^ 31 * 1000000 * 200 + 512"
    using sdiv_abs_le [of "t * 1000000 * (160 + 40 * b) + 512" 1024] pb by simp
  have 4: "long_add ((t * 1000000 * (160 + 40 * b) + 512) sdiv 1024) q
             = (t * 1000000 * (160 + 40 * b) + 512) sdiv 1024 + q"
    unfolding long_add_def using db qb by (intro long_of_id) simp_all
  show ?thesis
    unfolding beamformed_packno_def t_def [symmetric] q_def [symmetric] b_def [symmetric]
    by (simp only: 1 2 3 4)
qed

text \<open>
  C2 as stated fails: for timestamp 1, sequence 15 and the 200 MHz clock the program
  computes \<open>(195313 + 15) / 16 = 12208\<close>, the formula of the specification
  \<open>195313 / 16 + 15 / 16 = 12207\<close>.
\<close>

theorem packno_spec_counterexample:
  "beamformed_packno (example_header 1 15) = 12208 \<and>
   spec_packno (example_header 1 15) = 12207"
  by (simp add: beamformed_packno_def spec_packno_def example_header_def long_add_def
        long_mul_def long_of_def)

section \<open>Dropped packets\<close>

lemma account_beamformed_frame:
  "ringbuffer (account_beamformed i header s) = ringbuffer s"
  "stopped (account_beamformed i header s) = stopped s"
  "packs_seen (account_beamformed i header s) = packs_seen s"
  "packs_dropped (account_beamformed i header s) = packs_dropped s"
  "bytes_written (account_beamformed i header s) = bytes_written s"
  "outf (account_beamformed i header s) = outf s"
  "closed_files (account_beamformed i header s) = closed_files s"
  "bytes_written_thisfile (account_beamformed i header s) = bytes_written_thisfile s"
  by (simp_all add: account_beamformed_def Let_def)

text \<open>
  C5. When a packet of \<open>recvsize\<close> bytes read from socket \<open>i\<close> is accepted (the program
  is not stopping and the length is right) and \<^verbatim>\<open>vrb_poi_new\<close> finds no space for it,
  the pass counts it as seen and as dropped and changes neither the ring buffer
  (fillsize, front, rear) nor \<^verbatim>\<open>bytes_written[i]\<close>.
\<close>

theorem udp_drop_accounted:
  assumes "recvsize \<noteq> 0" and "stopped s \<noteq> 2"
    and "packlen c = 0 \<or> recvsize = packlen c"
    and "vrb_poi_new (ringbuffer s) (enq_size c recvsize) = None"
  shows "packs_dropped (enqueue c i recvsize header s) i = packs_dropped s i + 1 \<and>
         packs_seen (enqueue c i recvsize header s) i = packs_seen s i + 1 \<and>
         ringbuffer (enqueue c i recvsize header s) = ringbuffer s \<and>
         bytes_written (enqueue c i recvsize header s) i = bytes_written s i"
  using assms by (simp add: enqueue_def store_def Let_def account_beamformed_frame)

theorem udp_drop_accounted_witness:
  "(7824::int) \<noteq> 0 \<and> stopped full_state \<noteq> 2 \<and>
   (packlen default_options = 0 \<or> 7824 = packlen default_options) \<and>
   vrb_poi_new (ringbuffer full_state) (enq_size default_options 7824) = None \<and>
   packs_dropped (enqueue default_options 0 7824 (example_header 1 15) full_state) 0 = 1 \<and>
   packs_seen (enqueue default_options 0 7824 (example_header 1 15) full_state) 0 = 1 \<and>
   ringbuffer (enqueue default_options 0 7824 (example_header 1 15) full_state)
     = \<lparr>fillsize = 12288, front = 100, rear = 100, totsize = 12288\<rparr> \<and>
   bytes_written (enqueue default_options 0 7824 (example_header 1 15) full_state) 0 = 0"
  using udp_drop_accounted [of 7824 full_state default_options 0 "example_header 1 15"]
  by (simp add: full_state_def zero_state_def default_options_def vrb_poi_new_def enq_size_def)

section \<open>The snapshots of the signal handler\<close>

lemma snapshot_frame:
  "stopped (fold (snapshot_port c) js s) = stopped s \<and>
   outf (fold (snapshot_port c) js s) = outf s \<and>
   data_available_signals (fold (snapshot_port c) js s) = data_available_signals s \<and>
   ringbuffer (fold (snapshot_port c) js s) = ringbuffer s"
  by (induction js arbitrary: s) (simp_all add: snapshot_port_def Let_def)

section \<open>Frame lemmas\<close>

lemma fold_init_port_frame:
  "ringbuffer (fold init_port js s) = ringbuffer s"
  "stopped (fold init_port js s) = stopped s"
  "outf (fold init_port js s) = outf s"
  "closed_files (fold init_port js s) = closed_files s"
  "bytes_written_thisfile (fold init_port js s) = bytes_written_thisfile s"
  "filenumber (fold init_port js s) = filenumber s"
  "data_available_signals (fold init_port js s) = data_available_signals s"
  "space_available_signals (fold init_port js s) = space_available_signals s"
  "beamformed_last_packno (fold init_port js s) = beamformed_last_packno s"
  by (induction js arbitrary: s) (simp_all add: init_port_def)

lemma fold_init_port_reset:
  "j \<in> set js \<Longrightarrow>
     beamformed_first_packno (fold init_port js s) j = - 1 \<and>
     bytes_written (fold init_port js s) j = 0 \<and>
     packs_seen (fold init_port js s) j = 0 \<and>
     packs_dropped (fold init_port js s) j = 0 \<and>
     beamformed_good_packs (fold init_port js s) j = 0"
proof (induction js arbitrary: s rule: rev_induct)
  case Nil
  then show ?case by simp
next
  case (snoc x xs)
  then show ?case by (cases "j = x") (simp_all add: init_port_def)
qed

lemma init_thisfilestat_frame:
  "ringbuffer (init_thisfilestat c s) = ringbuffer s"
  "stopped (init_thisfilestat c s) = stopped s"
  "outf (init_thisfilestat c s) = outf s"
  "closed_files (init_thisfilestat c s) = closed_files s"
  "bytes_written_thisfile (init_thisfilestat c s) = bytes_written_thisfile s"
  "filenumber (init_thisfilestat c s) = filenumber s"
  "data_available_signals (init_thisfilestat c s) = data_available_signals s"
  "space_available_signals (init_thisfilestat c s) = space_available_signals s"
  "beamformed_last_packno (init_thisfilestat c s) = beamformed_last_packno s"
  "totlen (init_thisfilestat c s) = 0"
  "lasttotlen (init_thisfilestat c s) = 0"
  "maxsize (init_thisfilestat c s) = 0"
  by (simp_all add: init_thisfilestat_def fold_init_port_frame)

lemma init_thisfilestat_reset:
  assumes "j < nsock c"
  shows "beamformed_first_packno (init_thisfilestat c s) j = - 1"
    and "bytes_written (init_thisfilestat c s) j = 0"
    and "packs_seen (init_thisfilestat c s) j = 0"
    and "packs_dropped (init_thisfilestat c s) j = 0"
    and "beamformed_good_packs (init_thisfilestat c s) j = 0"
  using assms fold_init_port_reset [of j "[0..<nsock c]" s]
  by (simp_all add: init_thisfilestat_def)



lemma commit_fields:
  "ringbuffer (commit i n s) = vrb_advance_new (ringbuffer s) n"
  "stopped (commit i n s) = stopped s"
  "outf (commit i n s) = outf s"
  "closed_files (commit i n s) = closed_files s"
  "bytes_written_thisfile (commit i n s) = bytes_written_thisfile s"
  "filenumber (commit i n s) = filenumber s"
  "lasttotlen (commit i n s) = lasttotlen s"
  "packs_seen (commit i n s) = packs_seen s"
  "packs_dropped (commit i n s) = packs_dropped s"
  "beamformed_first_packno (commit i n s) = beamformed_first_packno s"
  "beamformed_last_packno (commit i n s) = beamformed_last_packno s"
  "beamformed_good_packs (commit i n s) = beamformed_good_packs s"
  "totlen (commit i n s) = totlen s + n"
  by (simp_all add: commit_def Let_def signal_data_available_def)

lemma account_beamformed_packno:
  "beamformed_last_packno (account_beamformed i header s) =
     (beamformed_last_packno s)(i := beamformed_packno header)"
  "beamformed_first_packno (account_beamformed i header s) =
     (if beamformed_first_packno s i = - 1
      then (beamformed_first_packno s)(i := beamformed_packno header)
      else beamformed_first_packno s)"
  "beamformed_good_packs (account_beamformed i header s) =
     (if beamformed_checkpack header
      then (beamformed_good_packs s)(i := beamformed_good_packs s i + 1)
      else beamformed_good_packs s)"
  "filenumber (account_beamformed i header s) = filenumber s"
  "lasttotlen (account_beamformed i header s) = lasttotlen s"
  "totlen (account_beamformed i header s) = totlen s"
  by (simp_all add: account_beamformed_def Let_def)

lemma store_fields:
  "ringbuffer (store c i n header s) =
     (if vrb_poi_new (ringbuffer s) n = None then ringbuffer s
      else vrb_advance_new (ringbuffer s) n)"
  "stopped (store c i n header s) = stopped s"
  "outf (store c i n header s) = outf s"
  "closed_files (store c i n header s) = closed_files s"
  "bytes_written_thisfile (store c i n header s) = bytes_written_thisfile s"
  "filenumber (store c i n header s) = filenumber s"
  "lasttotlen (store c i n header s) = lasttotlen s"
  "packs_seen (store c i n header s) = (packs_seen s)(i := packs_seen s i + 1)"
  "packs_dropped (store c i n header s) =
     (if vrb_poi_new (ringbuffer s) n = None
      then (packs_dropped s)(i := packs_dropped s i + 1) else packs_dropped s)"
  "totlen (store c i n header s) =
     (if vrb_poi_new (ringbuffer s) n = None then totlen s else totlen s + n)"
  by (cases "vrb_poi_new (ringbuffer s) n";
      simp add: store_def Let_def commit_fields account_beamformed_frame
        account_beamformed_packno)+

lemma store_packno:
  "beamformed_last_packno (store c i n header s) =
     (if beamformed_check c then (beamformed_last_packno s)(i := beamformed_packno header)
      else beamformed_last_packno s)"
  "beamformed_first_packno (store c i n header s) =
     (if beamformed_check c \<and> beamformed_first_packno s i = - 1
      then (beamformed_first_packno s)(i := beamformed_packno header)
      else beamformed_first_packno s)"
  "beamformed_good_packs (store c i n header s) =
     (if beamformed_check c \<and> beamformed_checkpack header
      then (beamformed_good_packs s)(i := beamformed_good_packs s i + 1)
      else beamformed_good_packs s)"
  by (simp_all add: store_def Let_def commit_fields account_beamformed_packno)

lemma enqueue_accepts:
  "enqueue c i n header s =
     (if accepts c s n then store c i (enq_size c n) header s else s)"
  by (simp add: enqueue_def accepts_def)

lemma enqueue_frame:
  "stopped (enqueue c i n header s) = stopped s"
  "outf (enqueue c i n header s) = outf s"
  "closed_files (enqueue c i n header s) = closed_files s"
  "bytes_written_thisfile (enqueue c i n header s) = bytes_written_thisfile s"
  "filenumber (enqueue c i n header s) = filenumber s"
  "lasttotlen (enqueue c i n header s) = lasttotlen s"
  by (simp_all add: enqueue_accepts store_fields)

lemma initial_state_fields:
  "ringbuffer (initial_state c pagesize bufsize) = init_vrb pagesize bufsize"
  "stopped (initial_state c pagesize bufsize) = 0"
  "outf (initial_state c pagesize bufsize) = None"
  "closed_files (initial_state c pagesize bufsize) = []"
  "bytes_written_thisfile (initial_state c pagesize bufsize) = 0"
  "totlen (initial_state c pagesize bufsize) = 0"
  "lasttotlen (initial_state c pagesize bufsize) = 0"
  by (simp_all add: initial_state_def init_thisfilestat_frame) (simp_all add: zero_state_def)

lemma initial_state_ports:
  assumes "j < nsock c"
  shows "beamformed_first_packno (initial_state c pagesize bufsize) j = - 1"
    and "packs_seen (initial_state c pagesize bufsize) j = 0"
    and "packs_dropped (initial_state c pagesize bufsize) j = 0"
    and "beamformed_good_packs (initial_state c pagesize bufsize) j = 0"
  using assms by (simp_all add: initial_state_def init_thisfilestat_reset)

lemma init_vrb_example:
  "init_vrb 4096 10001 = \<lparr>fillsize = 0, front = 0, rear = 0, totsize = 12288\<rparr>"
  by (simp add: init_vrb_def)

section \<open>The maximum file size\<close>

text \<open>
  For a whole number of bytes inside the range of \<^verbatim>\<open>int\<close> the option behaves as its help
  text says: the threshold is the absolute value and the sign selects the statistics.
\<close>

lemma option_M_int:
  assumes "k \<noteq> 0" and "\<bar>k\<bar> < 2 ^ 31"
  shows "option_M (real_of_int k) = Accepted (\<bar>real_of_int k\<bar>, k > 0)"
  using assms by (auto simp add: option_M_def double_to_int_def c_abs_def Let_def)

text \<open>
  A threshold that is not positive never makes the consumer split a file.
\<close>

lemma no_split_without_limit: "\<not> 0 < maxfilesize c \<Longrightarrow> local_stopped c s = stopped s"
  by (simp add: local_stopped_def)

text \<open>
  C8, at failing inputs. \<^verbatim>\<open>--Maxfilesize 0.5\<close> is accepted, and the threshold becomes 0
  instead of 0.5, which \<^verbatim>\<open>consumer\<close> and \<^verbatim>\<open>main\<close> read as "no limit"; for
  \<^verbatim>\<open>--Maxfilesize 3e9\<close> the conversion to \<^verbatim>\<open>int\<close> that \<^verbatim>\<open>abs\<close> forces is undefined.
\<close>

theorem maxfilesize_not_absolute_value:
  "option_M (1 / 2) = Accepted (0, True) \<and> option_M 3000000000 = Undefined"
  by (simp add: option_M_def double_to_int_def c_abs_def)


section \<open>Standard input with size headers\<close>

lemma stdin_options_fields:
  "stdin_mode stdin_options" "packlen stdin_options = 6143" "do_blocklen stdin_options"
  "nsock stdin_options = 1" "enq_size stdin_options 6143 = 6145"
  by (simp_all add: stdin_options_def default_options_def stdin_mode_def enq_size_def)

lemma regular_printout_idle:
  "totlen s - lasttotlen s \<le> 1000000000 \<Longrightarrow> regular_printout c s = s"
  by (simp add: regular_printout_def)

text \<open>
  C4, at a failing input. Standard input, \<^verbatim>\<open>--len 6143 --sizehead\<close>, a buffer of three
  pages of 4096 bytes (\<^verbatim>\<open>--bufsize 10001\<close>), two blocks of 6143 bytes read before the
  consumer has run. Both passes get past the wait for \<^verbatim>\<open>packlen\<close> bytes of space; the
  second block, 6145 bytes with its size header, finds no space and is counted as
  dropped.
\<close>

theorem stdin_sizehead_drop:
  "map_option (\<lambda>s. (fillsize (ringbuffer s), packs_seen s 0, packs_dropped s 0))
     (run stdin_options (initial_state stdin_options 4096 10001)
        [Stdin 6143 (example_header 1 0), Stdin 6143 (example_header 1 16)])
   = Some (6145, 2, 1)"
proof -
  define c where "c = stdin_options"
  define s0 where "s0 = initial_state c 4096 10001"
  define s1 where "s1 = enqueue c 0 6143 (example_header 1 0) s0"
  define s2 where "s2 = enqueue c 0 6143 (example_header 1 16) s1"
  note cf = stdin_options_fields [folded c_def]
  have acc: "accepts c s 6143 \<longleftrightarrow> stopped s \<noteq> 2" for s
    by (simp add: accepts_def cf)
  have f0: "ringbuffer s0 = \<lparr>fillsize = 0, front = 0, rear = 0, totsize = 12288\<rparr>"
    "stopped s0 = 0" "totlen s0 = 0" "lasttotlen s0 = 0"
    "packs_seen s0 0 = 0" "packs_dropped s0 0 = 0"
    by (simp_all add: s0_def initial_state_fields initial_state_ports cf init_vrb_example)
  have p0: "vrb_poi_new (ringbuffer s0) 6143 \<noteq> None" "vrb_poi_new (ringbuffer s0) 6145 \<noteq> None"
    by (simp_all add: f0 vrb_poi_new_def)
  have st0: "step c s0 (Stdin 6143 (example_header 1 0)) = Some s1"
    using p0 by (simp add: cf producer_stdin_def regular_printout_idle f0 s1_def)
  have f1: "ringbuffer s1 = \<lparr>fillsize = 6145, front = 0, rear = 6145, totsize = 12288\<rparr>"
    "stopped s1 = 0" "totlen s1 = 6145" "lasttotlen s1 = 0"
    "packs_seen s1 0 = 1" "packs_dropped s1 0 = 0"
    using p0
    by (simp_all add: s1_def enqueue_accepts acc store_fields f0 cf vrb_advance_new_def)
  have p1: "vrb_poi_new (ringbuffer s1) 6143 \<noteq> None" "vrb_poi_new (ringbuffer s1) 6145 = None"
    by (simp_all add: f1 vrb_poi_new_def)
  have st1: "step c s1 (Stdin 6143 (example_header 1 16)) = Some s2"
    using p1 by (simp add: cf producer_stdin_def regular_printout_idle f1 s2_def)
  have f2: "fillsize (ringbuffer s2) = 6145" "packs_seen s2 0 = 2" "packs_dropped s2 0 = 1"
    using p1 by (simp_all add: s2_def enqueue_accepts acc store_fields f1 cf)
  show ?thesis
    unfolding c_def [symmetric] s0_def [symmetric]
    by (simp add: st0 st1 f2 del: step.simps)
qed

section \<open>Packet numbers and counters\<close>

lemma enqueue_list_stopped: "stopped (enqueue_list c ps s) = stopped s"
  by (induction ps arbitrary: s) (auto simp: enqueue_frame)

lemma accepts_enqueue: "accepts c (enqueue c j m header s) n = accepts c s n"
  by (simp add: accepts_def enqueue_frame)

lemma port_packnos_enqueue:
  "port_packnos c (enqueue c j m header s) i ps = port_packnos c s i ps"
  by (simp add: port_packnos_def accepts_enqueue)

lemma port_packnos_Cons:
  "port_packnos c s i ((j, n, header) # ps) =
     (if j = i \<and> accepts c s (int n) then beamformed_packno header # port_packnos c s i ps
      else port_packnos c s i ps)"
  by (simp add: port_packnos_def)

lemma enqueue_other_port:
  assumes "j \<noteq> i"
  shows "packs_seen (enqueue c j n header s) i = packs_seen s i"
    and "beamformed_good_packs (enqueue c j n header s) i = beamformed_good_packs s i"
    and "beamformed_first_packno (enqueue c j n header s) i = beamformed_first_packno s i"
    and "beamformed_last_packno (enqueue c j n header s) i = beamformed_last_packno s i"
  using assms by (simp_all add: enqueue_accepts store_fields store_packno)

lemma enqueue_same_port:
  assumes "accepts c s n" and "beamformed_check c"
  shows "packs_seen (enqueue c i n header s) i = packs_seen s i + 1"
    and "beamformed_good_packs (enqueue c i n header s) i =
           beamformed_good_packs s i + (if beamformed_checkpack header then 1 else 0)"
    and "beamformed_first_packno (enqueue c i n header s) i =
           (if beamformed_first_packno s i = - 1 then beamformed_packno header
            else beamformed_first_packno s i)"
    and "beamformed_last_packno (enqueue c i n header s) i = beamformed_packno header"
  using assms by (simp_all add: enqueue_accepts store_fields store_packno)

lemma enqueue_rejected: "\<not> accepts c s n \<Longrightarrow> enqueue c i n header s = s"
  by (simp add: enqueue_accepts)

lemma good_le_seen_enqueue:
  assumes "beamformed_good_packs s i \<le> packs_seen s i"
  shows "beamformed_good_packs (enqueue c j n header s) i \<le> packs_seen (enqueue c j n header s) i"
  using assms by (auto simp add: enqueue_accepts store_fields store_packno)

lemma good_le_seen_list:
  "beamformed_good_packs s i \<le> packs_seen s i \<Longrightarrow>
   beamformed_good_packs (enqueue_list c ps s) i \<le> packs_seen (enqueue_list c ps s) i"
proof (induction ps arbitrary: s)
  case Nil
  then show ?case by simp
next
  case (Cons p ps)
  obtain j n header where p: "p = (j, n, header)" by (cases p)
  show ?case
    unfolding p enqueue_list.simps
    by (rule Cons.IH) (rule good_le_seen_enqueue [OF Cons.prems])
qed

lemma span_started:
  assumes "beamformed_check c"
    and "beamformed_first_packno s i \<noteq> - 1"
    and "packs_seen s i \<le> beamformed_last_packno s i - beamformed_first_packno s i + 1"
    and "sorted_wrt (<) (port_packnos c s i ps)"
    and "\<forall>p \<in> set (port_packnos c s i ps). beamformed_last_packno s i < p"
  shows "packs_seen (enqueue_list c ps s) i
           \<le> beamformed_last_packno (enqueue_list c ps s) i
               - beamformed_first_packno (enqueue_list c ps s) i + 1"
  using assms(2-)
proof (induction ps arbitrary: s)
  case Nil
  then show ?case by simp
next
  case (Cons p ps)
  obtain j n header where p: "p = (j, n, header)" by (cases p)
  let ?s = "enqueue c j (int n) header s"
  show ?case
  proof (cases "j = i \<and> accepts c s (int n)")
    case True
    then have ji: "j = i" and acc: "accepts c s (int n)" by simp_all
    have P: "port_packnos c s i (p # ps) = beamformed_packno header # port_packnos c s i ps"
      using True by (simp add: p port_packnos_Cons)
    have lt: "beamformed_last_packno s i < beamformed_packno header"
      using Cons.prems(4) by (simp add: P)
    have "packs_seen (enqueue_list c ps ?s) i
            \<le> beamformed_last_packno (enqueue_list c ps ?s) i
                - beamformed_first_packno (enqueue_list c ps ?s) i + 1"
    proof (rule Cons.IH)
      show "beamformed_first_packno ?s i \<noteq> - 1"
        using Cons.prems(1) acc assms(1) by (simp add: ji enqueue_same_port)
      show "packs_seen ?s i \<le> beamformed_last_packno ?s i - beamformed_first_packno ?s i + 1"
        using Cons.prems(1,2) lt acc assms(1) by (simp add: ji enqueue_same_port)
      show "sorted_wrt (<) (port_packnos c ?s i ps)"
        using Cons.prems(3) by (simp add: P port_packnos_enqueue)
      show "\<forall>q \<in> set (port_packnos c ?s i ps). beamformed_last_packno ?s i < q"
        using Cons.prems(3) acc assms(1) by (simp add: P port_packnos_enqueue ji enqueue_same_port)
    qed
    then show ?thesis by (simp add: p)
  next
    case False
    have P: "port_packnos c s i (p # ps) = port_packnos c s i ps"
      using False by (simp add: p port_packnos_Cons)
    have same: "packs_seen ?s i = packs_seen s i"
      "beamformed_first_packno ?s i = beamformed_first_packno s i"
      "beamformed_last_packno ?s i = beamformed_last_packno s i"
      using False by (cases "j = i"; simp add: enqueue_other_port enqueue_rejected)+
    have "packs_seen (enqueue_list c ps ?s) i
            \<le> beamformed_last_packno (enqueue_list c ps ?s) i
                - beamformed_first_packno (enqueue_list c ps ?s) i + 1"
      using Cons.prems by (intro Cons.IH) (simp_all add: same P port_packnos_enqueue)
    then show ?thesis by (simp add: p)
  qed
qed

lemma span_fresh:
  assumes "beamformed_check c"
    and "packs_seen s i = 0"
    and "beamformed_first_packno s i = - 1"
    and "sorted_wrt (<) (port_packnos c s i ps)"
    and "port_packnos c s i ps \<noteq> []"
    and "hd (port_packnos c s i ps) \<noteq> - 1"
  shows "packs_seen (enqueue_list c ps s) i
           \<le> beamformed_last_packno (enqueue_list c ps s) i
               - beamformed_first_packno (enqueue_list c ps s) i + 1"
  using assms(2-)
proof (induction ps arbitrary: s)
  case Nil
  then show ?case by (simp add: port_packnos_def)
next
  case (Cons p ps)
  obtain j n header where p: "p = (j, n, header)" by (cases p)
  let ?s = "enqueue c j (int n) header s"
  show ?case
  proof (cases "j = i \<and> accepts c s (int n)")
    case True
    then have ji: "j = i" and acc: "accepts c s (int n)" by simp_all
    have P: "port_packnos c s i (p # ps) = beamformed_packno header # port_packnos c s i ps"
      using True by (simp add: p port_packnos_Cons)
    have ne: "beamformed_packno header \<noteq> - 1"
      using Cons.prems(5) by (simp add: P)
    have "packs_seen (enqueue_list c ps ?s) i
            \<le> beamformed_last_packno (enqueue_list c ps ?s) i
                - beamformed_first_packno (enqueue_list c ps ?s) i + 1"
    proof (rule span_started [OF assms(1)])
      show "beamformed_first_packno ?s i \<noteq> - 1"
        using Cons.prems(2) ne acc assms(1) by (simp add: ji enqueue_same_port)
      show "packs_seen ?s i \<le> beamformed_last_packno ?s i - beamformed_first_packno ?s i + 1"
        using Cons.prems(1,2) acc assms(1) by (simp add: ji enqueue_same_port)
      show "sorted_wrt (<) (port_packnos c ?s i ps)"
        using Cons.prems(3) by (simp add: P port_packnos_enqueue)
      show "\<forall>q \<in> set (port_packnos c ?s i ps). beamformed_last_packno ?s i < q"
        using Cons.prems(3) acc assms(1) by (simp add: P port_packnos_enqueue ji enqueue_same_port)
    qed
    then show ?thesis by (simp add: p)
  next
    case False
    have P: "port_packnos c s i (p # ps) = port_packnos c s i ps"
      using False by (simp add: p port_packnos_Cons)
    have same: "packs_seen ?s i = packs_seen s i"
      "beamformed_first_packno ?s i = beamformed_first_packno s i"
      using False by (cases "j = i"; simp add: enqueue_other_port enqueue_rejected)+
    have "packs_seen (enqueue_list c ps ?s) i
            \<le> beamformed_last_packno (enqueue_list c ps ?s) i
                - beamformed_first_packno (enqueue_list c ps ?s) i + 1"
      using Cons.prems by (intro Cons.IH) (simp_all add: same P port_packnos_enqueue)
    then show ?thesis by (simp add: p)
  qed
qed

text \<open>
  Packets handled one after the other by the producer, from statistics that were just
  initialised and with no pass of another thread in between.
\<close>

lemma enqueue_list_span:
  assumes "beamformed_check c"
    and "packs_seen s i = 0"
    and "beamformed_first_packno s i = - 1"
    and "beamformed_good_packs s i = 0"
  shows "beamformed_good_packs (enqueue_list c ps s) i \<le> packs_seen (enqueue_list c ps s) i \<and>
         (sorted_wrt (<) (port_packnos c s i ps) \<and> port_packnos c s i ps \<noteq> [] \<and>
          hd (port_packnos c s i ps) \<noteq> - 1 \<longrightarrow>
          packs_seen (enqueue_list c ps s) i
            \<le> beamformed_last_packno (enqueue_list c ps s) i
                - beamformed_first_packno (enqueue_list c ps s) i + 1)"
  using assms good_le_seen_list [of s i c ps] span_fresh [of c s i ps] by simp

lemma check_options_fields:
  "beamformed_check check_options" "packlen check_options = 7824" "nsock check_options = 1"
  "enq_size check_options 7824 = 7824"
  by (simp_all add: check_options_def default_options_def enq_size_def)

lemma example_packnos:
  "beamformed_packno (example_header 1 0) = 12207"
  "beamformed_packno (example_header 1 16) = 12208"
  by (simp_all add: beamformed_packno_def example_header_def long_add_def long_mul_def
        long_of_def)

section \<open>Blocks of the consumer\<close>

lemma sdiv_nonneg: "0 \<le> a \<Longrightarrow> 0 \<le> b \<Longrightarrow> a sdiv b = a div b" for a b :: int
  by (simp add: signed_divide_int_def sgn_if)

lemma write_size_dvd: "packlen c \<noteq> 0 \<Longrightarrow> packlen c dvd write_size c fill"
  by (simp add: write_size_def Let_def)

lemma write_size_spec:
  assumes "0 \<le> fill" and "0 \<le> maxwrite c" and "0 \<le> packlen c"
  shows "write_size c fill =
           (if 0 < packlen c then min fill (maxwrite c) div packlen c * packlen c
            else min fill (maxwrite c))"
proof -
  have m: "(if fill > maxwrite c then maxwrite c else fill) = min fill (maxwrite c)"
    by (simp add: min_def)
  have "0 \<le> min fill (maxwrite c)" using assms by simp
  then have "min fill (maxwrite c) sdiv packlen c = min fill (maxwrite c) div packlen c"
    using assms(3) by (rule sdiv_nonneg)
  then show ?thesis
    using assms(3) by (simp add: write_size_def m)
qed

lemma write_size_bounds:
  assumes "0 \<le> fill" and "0 \<le> maxwrite c" and "0 \<le> packlen c"
  shows "0 \<le> write_size c fill" and "write_size c fill \<le> fill"
proof -
  have m: "0 \<le> min fill (maxwrite c)" using assms by simp
  have "min fill (maxwrite c) div packlen c * packlen c \<le> min fill (maxwrite c)"
    if "0 < packlen c"
    using that div_mult_mod_eq [of "min fill (maxwrite c)" "packlen c"]
      pos_mod_sign [of "packlen c" "min fill (maxwrite c)"] by linarith
  moreover have "0 \<le> min fill (maxwrite c) div packlen c * packlen c" if "0 < packlen c"
    using that m by (simp add: pos_imp_zdiv_nonneg_iff)
  ultimately show "0 \<le> write_size c fill" and "write_size c fill \<le> fill"
    using m by (auto simp add: write_size_spec [OF assms])
qed

lemma write_size_zero:
  assumes "0 \<le> fill" and "0 \<le> maxwrite c" and "maxwrite c < packlen c"
  shows "write_size c fill = 0"
proof -
  have "0 \<le> min fill (maxwrite c)" "min fill (maxwrite c) < packlen c"
    using assms by simp_all
  then have "min fill (maxwrite c) div packlen c = 0"
    by (simp add: div_pos_pos_trivial)
  then show ?thesis
    using assms by (simp add: write_size_spec)
qed

lemma files_cong:
  "outf s' = outf s \<Longrightarrow> closed_files s' = closed_files s \<Longrightarrow> files s' = files s"
  by (simp add: files_def)

lemma start_file_conj:
  "start_file c e s = Some s' \<Longrightarrow>
     outf s' = Some [] \<and> closed_files s' = closed_files s \<and>
     bytes_written_thisfile s' = 0 \<and> ringbuffer s' = ringbuffer s \<and>
     stopped s' = stopped s"
  by (auto simp add: start_file_def Let_def split: if_splits)

lemma close_file_conj:
  assumes "close_file c e m s = Some s'" and "outf s = Some ws"
  shows "closed_files s' = closed_files s @ [ws] \<and>
         (outf s' = None \<and> bytes_written_thisfile s' = bytes_written_thisfile s \<or>
          outf s' = Some [] \<and> bytes_written_thisfile s' = 0) \<and>
         ringbuffer s' = ringbuffer s \<and> stopped s' = stopped s \<and>
         (m \<noteq> - 1 \<longrightarrow> outf s' = None)"
proof (cases "m = - 1")
  case True
  define s1 where "s1 = (if stat_per_splitfile c then init_thisfilestat c s else s)"
  define s2 where "s2 = s1\<lparr>closed_files := closed_files s1 @ [ws], outf := None\<rparr>"
  have f1: "outf s1 = Some ws" "closed_files s1 = closed_files s" "ringbuffer s1 = ringbuffer s"
    "stopped s1 = stopped s"
    using assms(2) by (simp_all add: s1_def init_thisfilestat_frame)
  have "start_file c e s2 = Some s'"
    using assms True
    by (auto simp add: close_file_def s1_def s2_def Let_def init_thisfilestat_frame
          split: if_splits)
  from start_file_conj [OF this] show ?thesis
    using True by (simp add: s2_def f1)
next
  case False
  then have "s' = (init_thisfilestat c s)
                    \<lparr>closed_files := closed_files (init_thisfilestat c s) @ [ws], outf := None\<rparr>"
    using assms by (simp add: close_file_def Let_def init_thisfilestat_frame split: if_splits)
  then show ?thesis
    using False by (simp add: init_thisfilestat_frame)
qed

lemma end_file_conj:
  assumes "end_file c e m d s = Some s'"
  shows "ringbuffer s' = ringbuffer s \<and> stopped s' = stopped s \<and>
         set (files s') \<subseteq> insert [] (set (files s)) \<and>
         total_written s' = total_written s \<and>
         (bytes_written_thisfile s' = bytes_written_thisfile s \<or> bytes_written_thisfile s' = 0)"
proof (cases "((m = 2 \<and> d) \<or> \<bar>m\<bar> = 1) \<and> outf s \<noteq> None")
  case True
  then obtain ws where ws: "outf s = Some ws" by auto
  have "close_file c e m s = Some s'"
    using assms True by (simp add: end_file_def)
  from close_file_conj [OF this ws] show ?thesis
    by (auto simp add: files_def total_written_def ws)
next
  case False
  then have "s' = s" using assms by (auto simp add: end_file_def)
  then show ?thesis by auto
qed

lemma clear_stopped_fields:
  "ringbuffer (clear_stopped k s) = ringbuffer s"
  "outf (clear_stopped k s) = outf s"
  "closed_files (clear_stopped k s) = closed_files s"
  "bytes_written_thisfile (clear_stopped k s) = bytes_written_thisfile s"
  "files (clear_stopped k s) = files s"
  "total_written (clear_stopped k s) = total_written s"
  by (simp_all add: clear_stopped_def files_def total_written_def)

lemma write_block_conj:
  assumes "write_block c e s = Running s'"
  shows "outf s' = Some ((case outf s of None \<Rightarrow> [] | Some ws \<Rightarrow> ws)
                          @ [write_size c (fillsize (ringbuffer s))]) \<and>
         closed_files s' = closed_files s \<and>
         bytes_written_thisfile s' =
           (if outf s = None then 0 else bytes_written_thisfile s)
           + write_size c (fillsize (ringbuffer s)) \<and>
         ringbuffer s' = vrb_advance_old (ringbuffer s) (write_size c (fillsize (ringbuffer s))) \<and>
         fwrite_ret e = write_size c (fillsize (ringbuffer s))"
proof (cases "outf s")
  case None
  define s0 where "s0 = (if filenumber s > 0 then s\<lparr>filenumber := 0\<rparr> else s)"
  have f0: "closed_files s0 = closed_files s" "ringbuffer s0 = ringbuffer s"
    by (simp_all add: s0_def)
  obtain s1 where s1: "start_file c e s0 = Some s1"
    using assms None by (auto simp add: write_block_def s0_def Let_def split: option.splits)
  note f1 = start_file_conj [OF s1]
  show ?thesis
    using assms None s1 f1
    by (auto simp add: write_block_def s0_def [symmetric] Let_def f0 split: if_splits)
next
  case (Some ws)
  then show ?thesis
    using assms by (auto simp add: write_block_def Let_def split: if_splits)
qed

section \<open>Invariants of runs\<close>

lemma snapshot_frame_files:
  "closed_files (fold (snapshot_port c) js s) = closed_files s \<and>
   bytes_written_thisfile (fold (snapshot_port c) js s) = bytes_written_thisfile s \<and>
   packs_dropped (fold (snapshot_port c) js s) = packs_dropped s"
  by (induction js arbitrary: s) (simp_all add: snapshot_port_def Let_def)

lemma signal_handler_frame:
  "ringbuffer (signal_handler c k s) = ringbuffer s"
  "outf (signal_handler c k s) = outf s"
  "closed_files (signal_handler c k s) = closed_files s"
  "bytes_written_thisfile (signal_handler c k s) = bytes_written_thisfile s"
  "packs_dropped (signal_handler c k s) = packs_dropped s"
  by (simp_all add: signal_handler_def Let_def snapshot_frame snapshot_frame_files
        signal_data_available_def)

lemma recv_all_preserves:
  assumes enq: "\<And>i n header s. P s \<Longrightarrow> P (enqueue c i (int n) header s)"
  shows "P s \<Longrightarrow> next_state (recv_all c rd js s) = Some s' \<Longrightarrow> P s'"
proof (induction js arbitrary: s)
  case Nil
  then show ?case by simp
next
  case (Cons j js)
  show ?case
  proof (cases "rd j")
    case NotReady
    then show ?thesis using Cons by simp
  next
    case RecvError
    then show ?thesis using Cons.prems by simp
  next
    case (Recvfrom n header)
    then show ?thesis
      using Cons.prems Cons.IH [OF enq [OF Cons.prems(1), of j n header]]
      by (simp split: if_splits)
  qed
qed

lemma regular_printout_preserves:
  assumes "\<And>k s. P s \<Longrightarrow> P (signal_handler c k s)"
  shows "P s \<Longrightarrow> P (regular_printout c s)"
  using assms by (simp add: regular_printout_def)

lemma producer_udp_preserves:
  assumes enq: "\<And>i n header s. P s \<Longrightarrow> P (enqueue c i (int n) header s)"
    and sig: "\<And>k s. P s \<Longrightarrow> P (signal_handler c k s)"
    and "P s" and "next_state (producer_udp c sel s) = Some s'"
  shows "P s'"
proof -
  have r: "P (regular_printout c s)"
    using sig assms(3) by (rule regular_printout_preserves)
  show ?thesis
  proof (cases "stopped (regular_printout c s) = 2")
    case True
    then show ?thesis
      using assms(4) r by (simp add: producer_udp_def Let_def split: if_splits)
  next
    case False
    show ?thesis
    proof (cases "pselect_ret sel")
      case PselectFail
      then show ?thesis using assms(4) False by (simp add: producer_udp_def Let_def)
    next
      case PselectTimeout
      then have "next_state (recv_all c (\<lambda>i. NotReady) [0..<nsock c]
                   (signal_handler c (- 1) (regular_printout c s))) = Some s'"
        using assms(4) False by (simp add: producer_udp_def Let_def)
      with sig [OF r] show ?thesis
        using recv_all_preserves [of P c] enq by blast
    next
      case (PselectReady rd)
      then have "next_state (recv_all c rd [0..<nsock c] (regular_printout c s)) = Some s'"
        using assms(4) False by (simp add: producer_udp_def Let_def)
      with r show ?thesis
        using recv_all_preserves [of P c] enq by blast
    qed
  qed
qed

lemma producer_stdin_preserves:
  assumes enq: "\<And>i n header s. P s \<Longrightarrow> P (enqueue c i (int n) header s)"
    and sig: "\<And>k s. P s \<Longrightarrow> P (signal_handler c k s)"
    and "P s" and "next_state (producer_stdin c n header s) = Some s'"
  shows "P s'"
proof -
  have r: "P (regular_printout c s)"
    using sig assms(3) by (rule regular_printout_preserves)
  show ?thesis
    using assms(4) r sig [OF r] enq [OF r]
    by (auto simp add: producer_stdin_def Let_def split: if_splits)
qed

lemma write_block_next:
  "next_state (write_block c e s) = Some s' \<Longrightarrow> write_block c e s = Running s'"
  by (auto simp add: write_block_def Let_def split: option.splits if_splits)

lemma consumer_next:
  assumes "next_state (consumer c e s) = Some s'"
  obtains (idle) s1 where "fillsize (ringbuffer s) = 0"
      and "end_file c e (local_stopped c s) True s = Some s1"
      and "s' = s1 \<or> s' = clear_stopped (stopped s) s1"
  | (busy) s1 where "fillsize (ringbuffer s) \<noteq> 0"
      and "end_file c e (local_stopped c s) False s = Some s1"
      and "write_block c e (clear_stopped (stopped s) s1) = Running s'"
proof (cases "fillsize (ringbuffer s) = 0")
  case True
  then have "\<exists>s1. end_file c e (local_stopped c s) True s = Some s1 \<and>
               (s' = s1 \<or> s' = clear_stopped (stopped s) s1)"
    using assms
    by (auto simp add: consumer_def vrb_poi_old_def Let_def split: if_splits option.splits)
  with True idle show ?thesis by blast
next
  case False
  then have "\<exists>s1. end_file c e (local_stopped c s) False s = Some s1 \<and>
               write_block c e (clear_stopped (stopped s) s1) = Running s'"
    using assms
    by (auto simp add: consumer_def vrb_poi_old_def Let_def write_block_next
          split: if_splits option.splits)
  with False busy show ?thesis by blast
qed


lemma consumer_preserves:
  assumes endf: "\<And>m d s s1. P s \<Longrightarrow> end_file c e m d s = Some s1 \<Longrightarrow> P s1"
    and clr: "\<And>k s. P s \<Longrightarrow> P (clear_stopped k s)"
    and wr: "\<And>s s'. P s \<Longrightarrow> write_block c e s = Running s' \<Longrightarrow> P s'"
    and "P s" and "next_state (consumer c e s) = Some s'"
  shows "P s'"
  using assms(5)
proof (cases rule: consumer_next)
  case (idle s1)
  have "P s1" using assms(4) idle(2) by (rule endf)
  then have "P (clear_stopped (stopped s) s1)" by (rule clr)
  with \<open>P s1\<close> idle(3) show ?thesis by auto
next
  case (busy s1)
  have "P s1" using assms(4) busy(2) by (rule endf)
  then have "P (clear_stopped (stopped s) s1)" by (rule clr)
  then show ?thesis using busy(3) by (rule wr)
qed

lemma step_preserves:
  assumes enq: "\<And>i n header s. P s \<Longrightarrow> P (enqueue c i (int n) header s)"
    and sig: "\<And>k s. P s \<Longrightarrow> P (signal_handler c k s)"
    and endf: "\<And>e m d s s1. P s \<Longrightarrow> end_file c e m d s = Some s1 \<Longrightarrow> P s1"
    and clr: "\<And>k s. P s \<Longrightarrow> P (clear_stopped k s)"
    and wr: "\<And>e s s'. P s \<Longrightarrow> write_block c e s = Running s' \<Longrightarrow> P s'"
    and "P s" and "step c s ev = Some s'"
  shows "P s'"
proof (cases ev)
  case (Stdin n header)
  then have "next_state (producer_stdin c n header s) = Some s'"
    using assms(7) by (simp split: if_splits)
  with enq sig assms(6) show ?thesis by (rule producer_stdin_preserves)
next
  case (Udp sel)
  then have "next_state (producer_udp c sel s) = Some s'"
    using assms(7) by (simp split: if_splits)
  with enq sig assms(6) show ?thesis by (rule producer_udp_preserves)
next
  case (Consume e)
  then have "next_state (consumer c e s) = Some s'"
    using assms(7) by simp
  with endf clr wr assms(6) show ?thesis by (rule consumer_preserves)
next
  case (Signal k)
  then have "s' = signal_handler c k s"
    using assms(7) by (simp split: if_splits)
  then show ?thesis using sig [OF assms(6)] by simp
qed

lemma run_preserves:
  assumes enq: "\<And>i n header s. P s \<Longrightarrow> P (enqueue c i (int n) header s)"
    and sig: "\<And>k s. P s \<Longrightarrow> P (signal_handler c k s)"
    and endf: "\<And>e m d s s1. P s \<Longrightarrow> end_file c e m d s = Some s1 \<Longrightarrow> P s1"
    and clr: "\<And>k s. P s \<Longrightarrow> P (clear_stopped k s)"
    and wr: "\<And>e s s'. P s \<Longrightarrow> write_block c e s = Running s' \<Longrightarrow> P s'"
  shows "P s \<Longrightarrow> run c s evs = Some s' \<Longrightarrow> P s'"
proof (induction evs arbitrary: s)
  case Nil
  then show ?case by simp
next
  case (Cons ev evs)
  then obtain s1 where s1: "step c s ev = Some s1" and r: "run c s1 evs = Some s'"
    by (auto simp del: step.simps split: option.splits)
  have "P s1"
    using enq sig endf clr wr Cons.prems(1) s1 by (rule step_preserves)
  then show ?case using r by (rule Cons.IH)
qed

section \<open>The ring buffer and whole packets along a run\<close>

lemma enq_size_nonneg: "0 \<le> enq_size c (int n)"
  by (simp add: enq_size_def)

lemma enqueue_fillsize:
  "fillsize (ringbuffer (enqueue c i n header s)) =
     (if accepts c s n \<and> vrb_poi_new (ringbuffer s) (enq_size c n) \<noteq> None
      then fillsize (ringbuffer s) + enq_size c n else fillsize (ringbuffer s))"
  by (simp add: enqueue_accepts store_fields vrb_advance_new_def)

lemma enqueue_vrb_inv:
  assumes "vrb_inv (ringbuffer s)"
  shows "vrb_inv (ringbuffer (enqueue c i (int n) header s))"
proof (cases "accepts c s (int n) \<and> vrb_poi_new (ringbuffer s) (enq_size c (int n)) \<noteq> None")
  case True
  then have "fillsize (ringbuffer s) + enq_size c (int n) \<le> totsize (ringbuffer s)"
    by (simp add: vrb_poi_new_def split: if_splits)
  with assms enq_size_nonneg have "vrb_inv (vrb_advance_new (ringbuffer s) (enq_size c (int n)))"
    by (rule vrb_inv_advance_new)
  then show ?thesis using True by (auto simp add: enqueue_accepts store_fields)
next
  case False
  then show ?thesis using assms by (auto simp add: enqueue_accepts store_fields)
qed

lemma write_block_vrb_inv:
  assumes "0 \<le> maxwrite c" and "0 \<le> packlen c"
    and "vrb_inv (ringbuffer s)" and "write_block c e s = Running s'"
  shows "vrb_inv (ringbuffer s')"
proof -
  have "0 \<le> fillsize (ringbuffer s)" using assms(3) by (simp add: vrb_inv_def)
  then have "0 \<le> write_size c (fillsize (ringbuffer s))"
    "write_size c (fillsize (ringbuffer s)) \<le> fillsize (ringbuffer s)"
    using assms(1,2) by (simp_all add: write_size_bounds)
  with assms(3) have "vrb_inv (vrb_advance_old (ringbuffer s) (write_size c (fillsize (ringbuffer s))))"
    by (rule vrb_inv_advance_old)
  then show ?thesis using write_block_conj [OF assms(4)] by simp
qed

lemma run_vrb_inv:
  assumes "0 \<le> maxwrite c" and "0 \<le> packlen c"
    and "vrb_inv (ringbuffer s)" and "run c s evs = Some s'"
  shows "vrb_inv (ringbuffer s')"
proof (rule run_preserves [where P = "\<lambda>s. vrb_inv (ringbuffer s)" and c = c, OF _ _ _ _ _ assms(3,4)])
  show "vrb_inv (ringbuffer (enqueue c i (int n) header s))" if "vrb_inv (ringbuffer s)"
    for i n header s using that by (rule enqueue_vrb_inv)
  show "vrb_inv (ringbuffer (signal_handler c k s))" if "vrb_inv (ringbuffer s)" for k s
    using that by (simp add: signal_handler_frame)
  show "vrb_inv (ringbuffer s1)" if "vrb_inv (ringbuffer s)" "end_file c e m d s = Some s1"
    for e m d s s1 using that end_file_conj [of c e m d s s1] by simp
  show "vrb_inv (ringbuffer (clear_stopped k s))" if "vrb_inv (ringbuffer s)" for k s
    using that by (simp add: clear_stopped_fields)
  show "vrb_inv (ringbuffer s')" if "vrb_inv (ringbuffer s)" "write_block c e s = Running s'"
    for e s s' using assms(1,2) that by (rule write_block_vrb_inv)
qed

lemma run_whole_blocks:
  assumes L: "packlen c \<noteq> 0"
    and "(\<forall>f \<in> set (files s). \<forall>w \<in> set f. packlen c dvd w) \<and>
         packlen c dvd bytes_written_thisfile s"
    and "run c s evs = Some s'"
  shows "(\<forall>f \<in> set (files s'). \<forall>w \<in> set f. packlen c dvd w) \<and>
         packlen c dvd bytes_written_thisfile s'"
proof (rule run_preserves [where c = c and P = "\<lambda>s. (\<forall>f \<in> set (files s). \<forall>w \<in> set f. packlen c dvd w) \<and>
         packlen c dvd bytes_written_thisfile s", OF _ _ _ _ _ assms(2,3)])
  fix s :: state
  assume P: "(\<forall>f \<in> set (files s). \<forall>w \<in> set f. packlen c dvd w) \<and>
             packlen c dvd bytes_written_thisfile s"
  show "(\<forall>f \<in> set (files (enqueue c i (int n) header s)). \<forall>w \<in> set f. packlen c dvd w) \<and>
        packlen c dvd bytes_written_thisfile (enqueue c i (int n) header s)" for i n header
    using P by (simp add: files_def enqueue_frame)
  show "(\<forall>f \<in> set (files (signal_handler c k s)). \<forall>w \<in> set f. packlen c dvd w) \<and>
        packlen c dvd bytes_written_thisfile (signal_handler c k s)" for k
    using P by (simp add: files_def signal_handler_frame)
  show "(\<forall>f \<in> set (files (clear_stopped k s)). \<forall>w \<in> set f. packlen c dvd w) \<and>
        packlen c dvd bytes_written_thisfile (clear_stopped k s)" for k
    using P by (simp add: clear_stopped_fields)
  show "(\<forall>f \<in> set (files s1). \<forall>w \<in> set f. packlen c dvd w) \<and>
        packlen c dvd bytes_written_thisfile s1"
    if "end_file c e m d s = Some s1" for e m d s1
    using P end_file_conj [OF that] by auto
  show "(\<forall>f \<in> set (files s'). \<forall>w \<in> set f. packlen c dvd w) \<and>
        packlen c dvd bytes_written_thisfile s'"
    if "write_block c e s = Running s'" for e s'
    using P write_block_conj [OF that] write_size_dvd [OF L, of "fillsize (ringbuffer s)"]
    by (auto simp add: files_def split: option.splits)
qed

lemma run_whole_fill:
  assumes L: "packlen c \<noteq> 0" and nb: "\<not> do_blocklen c"
    and "packlen c dvd fillsize (ringbuffer s)"
    and "run c s evs = Some s'"
  shows "packlen c dvd fillsize (ringbuffer s')"
proof (rule run_preserves [where c = c and P = "\<lambda>s. packlen c dvd fillsize (ringbuffer s)",
      OF _ _ _ _ _ assms(3,4)])
  fix s :: state
  assume P: "packlen c dvd fillsize (ringbuffer s)"
  show "packlen c dvd fillsize (ringbuffer (enqueue c i (int n) header s))" for i n header
    using P L nb by (auto simp add: enqueue_fillsize accepts_def enq_size_def)
  show "packlen c dvd fillsize (ringbuffer (signal_handler c k s))" for k
    using P by (simp add: signal_handler_frame)
  show "packlen c dvd fillsize (ringbuffer (clear_stopped k s))" for k
    using P by (simp add: clear_stopped_fields)
  show "packlen c dvd fillsize (ringbuffer s1)" if "end_file c e m d s = Some s1" for e m d s1
    using P end_file_conj [OF that] by simp
  show "packlen c dvd fillsize (ringbuffer s')" if "write_block c e s = Running s'" for e s'
    using P write_block_conj [OF that] write_size_dvd [OF L, of "fillsize (ringbuffer s)"]
    by (simp add: vrb_advance_old_def)
qed

section \<open>What the consumer writes\<close>

lemma dvd_sum_list: "(\<forall>w \<in> set ws. L dvd w) \<Longrightarrow> L dvd sum_list ws" for L :: int
  by (induction ws) simp_all

lemma dvd_offsets:
  fixes L :: int
  assumes "\<forall>w \<in> set ws. L dvd w" and "k \<in> set (offsets ws)"
  shows "L dvd k"
proof -
  obtain j where "k = sum_list (take j ws)"
    using assms(2) by (auto simp add: offsets_def simp del: upt_Suc)
  moreover have "\<forall>w \<in> set (take j ws). L dvd w"
    using assms(1) by (meson in_set_takeD)
  ultimately show ?thesis by (simp add: dvd_sum_list)
qed

lemma fresh_whole:
  "fresh s \<Longrightarrow>
     (\<forall>f \<in> set (files s). \<forall>w \<in> set f. L dvd w) \<and> L dvd bytes_written_thisfile s"
  by (auto simp add: fresh_def files_def)

lemma fresh_initial_state: "fresh (initial_state c 4096 10001)"
  by (simp add: fresh_def initial_state_fields init_vrb_example)

lemma consumer_write_pass:
  assumes "fillsize (ringbuffer s) \<noteq> 0" and "next_state (consumer c e s) = Some s'"
  shows "(\<exists>ws. outf s' = Some (ws @ [write_size c (fillsize (ringbuffer s))])) \<and>
         fwrite_ret e = write_size c (fillsize (ringbuffer s)) \<and>
         ringbuffer s' = vrb_advance_old (ringbuffer s) (write_size c (fillsize (ringbuffer s)))"
  using assms(2)
proof (cases rule: consumer_next)
  case (idle s1)
  then show ?thesis using assms(1) by simp
next
  case (busy s1)
  have r: "ringbuffer (clear_stopped (stopped s) s1) = ringbuffer s"
    using end_file_conj [OF busy(2)] by (simp add: clear_stopped_fields)
  show ?thesis
    using write_block_conj [OF busy(3)] by (simp add: r)
qed

text \<open>
  C3. With the options as \<^verbatim>\<open>main\<close> accepts them, a pass of the consumer that finds data
  writes exactly \<open>min (fillsize, maxwrite)\<close> bytes, rounded down to a multiple of \<open>L\<close> when
  \<open>L > 0\<close>, and releases as many. Consequently, in every run with \<open>L > 0\<close> every block
  written to every file, and with it every offset at which a block begins or ends, is
  a multiple of \<open>L\<close>.
\<close>

theorem consumer_write_size:
  assumes "0 \<le> packlen c" and "0 < maxwrite c"
  shows "(0 \<le> fillsize (ringbuffer s) \<and> fillsize (ringbuffer s) \<noteq> 0 \<and>
          next_state (consumer c e s) = Some s' \<longrightarrow>
            (\<exists>ws. outf s' =
               Some (ws @ [spec_chunk (fillsize (ringbuffer s)) (maxwrite c) (packlen c)])) \<and>
            fwrite_ret e = spec_chunk (fillsize (ringbuffer s)) (maxwrite c) (packlen c) \<and>
            fillsize (ringbuffer s') =
              fillsize (ringbuffer s)
              - spec_chunk (fillsize (ringbuffer s)) (maxwrite c) (packlen c)) \<and>
         (0 < packlen c \<and> fresh s0 \<and> run c s0 evs = Some t \<longrightarrow>
            (\<forall>f \<in> set (files t).
               (\<forall>w \<in> set f. packlen c dvd w) \<and> (\<forall>k \<in> set (offsets f). packlen c dvd k)))"
proof (intro conjI impI)
  assume a: "0 \<le> fillsize (ringbuffer s) \<and> fillsize (ringbuffer s) \<noteq> 0 \<and>
             next_state (consumer c e s) = Some s'"
  have w: "write_size c (fillsize (ringbuffer s))
             = spec_chunk (fillsize (ringbuffer s)) (maxwrite c) (packlen c)"
    using a assms by (simp add: write_size_spec spec_chunk_def)
  from a have p: "(\<exists>ws. outf s' = Some (ws @ [write_size c (fillsize (ringbuffer s))])) \<and>
         fwrite_ret e = write_size c (fillsize (ringbuffer s)) \<and>
         ringbuffer s' = vrb_advance_old (ringbuffer s) (write_size c (fillsize (ringbuffer s)))"
    by (intro consumer_write_pass) simp_all
  show "\<exists>ws. outf s' = Some (ws @ [spec_chunk (fillsize (ringbuffer s)) (maxwrite c) (packlen c)])"
    using p by (simp add: w)
  show "fwrite_ret e = spec_chunk (fillsize (ringbuffer s)) (maxwrite c) (packlen c)"
    using p by (simp add: w)
  show "fillsize (ringbuffer s') =
          fillsize (ringbuffer s) - spec_chunk (fillsize (ringbuffer s)) (maxwrite c) (packlen c)"
    using p by (simp add: w vrb_advance_old_def)
next
  assume b: "0 < packlen c \<and> fresh s0 \<and> run c s0 evs = Some t"
  then have "fresh s0" by simp
  then have "(\<forall>f \<in> set (files s0). \<forall>w \<in> set f. packlen c dvd w) \<and>
             packlen c dvd bytes_written_thisfile s0"
    by (rule fresh_whole)
  with b have "(\<forall>f \<in> set (files t). \<forall>w \<in> set f. packlen c dvd w) \<and>
               packlen c dvd bytes_written_thisfile t"
    by (intro run_whole_blocks [of c s0 evs t]) simp_all
  then show "\<forall>f \<in> set (files t).
               (\<forall>w \<in> set f. packlen c dvd w) \<and> (\<forall>k \<in> set (offsets f). packlen c dvd k)"
    using dvd_offsets by blast
qed

text \<open>
  C9. With a fixed packet length \<open>L > 0\<close> and no size headers, a pass of the producer
  either leaves the fill level as it is or commits a packet of exactly \<open>L\<close> bytes, every
  block the consumer releases is a multiple of \<open>L\<close>, and so in every state of every run
  \<^verbatim>\<open>fillsize\<close> and \<^verbatim>\<open>bytes_written_thisfile\<close> are multiples of \<open>L\<close>, as is the size of
  every file that has been closed.
\<close>

theorem whole_packets_invariant:
  assumes "0 < packlen c" and "\<not> do_blocklen c" and "fresh s0" and "run c s0 evs = Some s"
  shows "packlen c dvd fillsize (ringbuffer s) \<and>
         packlen c dvd bytes_written_thisfile s \<and>
         (\<forall>f \<in> set (closed_files s). packlen c dvd sum_list f) \<and>
         (\<forall>i n header t.
            fillsize (ringbuffer (enqueue c i n header t)) = fillsize (ringbuffer t) \<or>
            n = packlen c \<and>
            fillsize (ringbuffer (enqueue c i n header t)) = fillsize (ringbuffer t) + packlen c) \<and>
         (\<forall>fill. packlen c dvd write_size c fill)"
proof -
  have L: "packlen c \<noteq> 0" using assms(1) by simp
  have "packlen c dvd fillsize (ringbuffer s0)"
    using assms(3) by (simp add: fresh_def)
  with L assms(2) have 1: "packlen c dvd fillsize (ringbuffer s)"
    using assms(4) by (rule run_whole_fill)
  have "(\<forall>f \<in> set (files s0). \<forall>w \<in> set f. packlen c dvd w) \<and>
        packlen c dvd bytes_written_thisfile s0"
    using assms(3) by (rule fresh_whole)
  with L have 2: "(\<forall>f \<in> set (files s). \<forall>w \<in> set f. packlen c dvd w) \<and>
                  packlen c dvd bytes_written_thisfile s"
    using assms(4) by (rule run_whole_blocks)
  have 3: "\<forall>f \<in> set (closed_files s). packlen c dvd sum_list f"
  proof (rule ballI)
    fix f
    assume "f \<in> set (closed_files s)"
    then have "f \<in> set (files s)" by (simp add: files_def)
    then show "packlen c dvd sum_list f" using 2 by (simp add: dvd_sum_list)
  qed
  have 4: "fillsize (ringbuffer (enqueue c i n header t)) = fillsize (ringbuffer t) \<or>
           n = packlen c \<and>
           fillsize (ringbuffer (enqueue c i n header t)) = fillsize (ringbuffer t) + packlen c"
    for i n header t
    using L assms(2) by (auto simp add: enqueue_fillsize accepts_def enq_size_def)
  show ?thesis
    using 1 2 3 4 write_size_dvd [OF L] by blast
qed


lemma vrb_advance_old_zero: "vrb_inv v \<Longrightarrow> vrb_advance_old v 0 = v"
  by (simp add: vrb_inv_def vrb_advance_old_def smod_mod_positive)

lemma write_block_total:
  assumes "write_block c e s = Running s'"
  shows "total_written s' = total_written s + write_size c (fillsize (ringbuffer s))"
  using write_block_conj [OF assms]
  by (auto simp add: total_written_def files_def split: option.splits)

lemma run_fill_grows:
  assumes "0 \<le> maxwrite c" and "maxwrite c < packlen c"
    and "0 \<le> fillsize (ringbuffer s) \<and> k \<le> fillsize (ringbuffer s)"
    and "run c s evs = Some t"
  shows "0 \<le> fillsize (ringbuffer t) \<and> k \<le> fillsize (ringbuffer t)"
proof (rule run_preserves [where c = c and
      P = "\<lambda>s. 0 \<le> fillsize (ringbuffer s) \<and> k \<le> fillsize (ringbuffer s)",
      OF _ _ _ _ _ assms(3,4)])
  fix s :: state
  assume P: "0 \<le> fillsize (ringbuffer s) \<and> k \<le> fillsize (ringbuffer s)"
  show "0 \<le> fillsize (ringbuffer (enqueue c i (int n) header s)) \<and>
        k \<le> fillsize (ringbuffer (enqueue c i (int n) header s))" for i n header
    using P enq_size_nonneg [of c n] by (simp add: enqueue_fillsize)
  show "0 \<le> fillsize (ringbuffer (signal_handler c j s)) \<and>
        k \<le> fillsize (ringbuffer (signal_handler c j s))" for j
    using P by (simp add: signal_handler_frame)
  show "0 \<le> fillsize (ringbuffer (clear_stopped j s)) \<and>
        k \<le> fillsize (ringbuffer (clear_stopped j s))" for j
    using P by (simp add: clear_stopped_fields)
  show "0 \<le> fillsize (ringbuffer s1) \<and> k \<le> fillsize (ringbuffer s1)"
    if "end_file c e m d s = Some s1" for e m d s1
    using P end_file_conj [OF that] by simp
  show "0 \<le> fillsize (ringbuffer s') \<and> k \<le> fillsize (ringbuffer s')"
    if "write_block c e s = Running s'" for e s'
    using P write_block_conj [OF that] assms(1,2)
    by (simp add: write_size_zero vrb_advance_old_def)
qed

text \<open>
  C10. If \<^verbatim>\<open>--len\<close> and \<^verbatim>\<open>--maxwrite\<close> are both accepted and the packet length exceeds
  \<^verbatim>\<open>maxwrite\<close>, then the block size the consumer computes is 0, a pass of the consumer
  writes nothing and leaves the ring buffer as it is, and along every run the fill level
  never decreases.
\<close>

theorem oversized_packlen_stalls:
  assumes "option_l (beamformed_check c) (packlen c) = Accepted (packlen c)"
    and "option_m (maxwrite c) = Accepted (maxwrite c)"
    and "maxwrite c < packlen c"
    and "vrb_inv (ringbuffer s)"
  shows "write_size c (fillsize (ringbuffer s)) = 0 \<and>
         (next_state (consumer c e s) = Some s' \<longrightarrow>
            ringbuffer s' = ringbuffer s \<and> total_written s' = total_written s) \<and>
         (run c s evs = Some t \<longrightarrow> fillsize (ringbuffer s) \<le> fillsize (ringbuffer t))"
proof (intro conjI impI)
  have m: "0 \<le> maxwrite c"
    using assms(2) by (simp add: option_m_def split: if_splits)
  have f: "0 \<le> fillsize (ringbuffer s)"
    using assms(4) by (simp add: vrb_inv_def)
  show z: "write_size c (fillsize (ringbuffer s)) = 0"
    using f m assms(3) by (rule write_size_zero)
  show "fillsize (ringbuffer s) \<le> fillsize (ringbuffer t)" if "run c s evs = Some t"
    using run_fill_grows [OF m assms(3) _ that, of "fillsize (ringbuffer s)"] f by simp
  assume n: "next_state (consumer c e s) = Some s'"
  from n show "ringbuffer s' = ringbuffer s"
  proof (cases rule: consumer_next)
    case (idle s1)
    then show ?thesis
      using end_file_conj [OF idle(2)] by (auto simp add: clear_stopped_fields)
  next
    case (busy s1)
    have r: "ringbuffer (clear_stopped (stopped s) s1) = ringbuffer s"
      using end_file_conj [OF busy(2)] by (simp add: clear_stopped_fields)
    show ?thesis
      using write_block_conj [OF busy(3)] assms(4) by (simp add: r z vrb_advance_old_zero)
  qed
  from n show "total_written s' = total_written s"
  proof (cases rule: consumer_next)
    case (idle s1)
    then show ?thesis
      using end_file_conj [OF idle(2)] by (auto simp add: clear_stopped_fields)
  next
    case (busy s1)
    have r: "ringbuffer (clear_stopped (stopped s) s1) = ringbuffer s"
      "total_written (clear_stopped (stopped s) s1) = total_written s"
      using end_file_conj [OF busy(2)] by (simp_all add: clear_stopped_fields)
    show ?thesis
      using write_block_total [OF busy(3)] by (simp add: r z)
  qed
qed


section \<open>Passes that are certain to run\<close>

lemma step_datagram:
  assumes "\<not> stdin_mode c" and "nsock c = 1" and "stopped s \<noteq> 2"
    and "totlen s - lasttotlen s \<le> 1000000000" and "int n < MMAXLEN"
  shows "step c s (Udp (datagram n header)) = Some (enqueue c 0 (int n) header s)"
  using assms
  by (simp add: producer_udp_def regular_printout_idle datagram_def Let_def)

lemma consumer_busy_next:
  assumes "fillsize (ringbuffer s) \<noteq> 0" and "stopped s = 0" and "\<not> 0 < maxfilesize c"
    and "fopen_ok e" and "fwrite_ret e = write_size c (fillsize (ringbuffer s))"
  shows "\<exists>s'. next_state (consumer c e s) = Some s' \<and> stopped s' = 0"
  using assms
  by (simp add: consumer_def vrb_poi_old_def local_stopped_def end_file_def clear_stopped_def
        write_block_def start_file_def Let_def)

lemma signal_handler_sighup:
  "outf s \<noteq> None \<Longrightarrow>
     stopped (signal_handler c SIGHUP s) = (if stopped s = 0 then 1 else stopped s)"
  by (simp add: signal_handler_def Let_def SIGHUP_def SIGINT_def SIGTERM_def SIGALRM_def
        snapshot_frame signal_data_available_def)

lemma consumer_ends_file:
  assumes "stopped s = 1" and "outf s = Some ws"
    and "next_state (consumer c e s) = Some s'"
  shows "closed_files s' = closed_files s @ [ws]"
proof -
  have l: "local_stopped c s = 1"
    using assms(1) by (simp add: local_stopped_def)
  have cl: "closed_files s1 = closed_files s @ [ws]"
    if "end_file c e (local_stopped c s) d s = Some s1" for d s1
  proof -
    have "close_file c e 1 s = Some s1"
      using that assms(2) by (simp add: l end_file_def)
    from close_file_conj [OF this assms(2)] show ?thesis by simp
  qed
  from assms(3) show ?thesis
  proof (cases rule: consumer_next)
    case (idle s1)
    then show ?thesis using cl [OF idle(2)] by (auto simp add: clear_stopped_fields)
  next
    case (busy s1)
    then show ?thesis
      using cl [OF busy(2)] write_block_conj [OF busy(3)] by (simp add: clear_stopped_fields)
  qed
qed

lemma consumer_idle_next:
  assumes "fillsize (ringbuffer s) = 0" and "stopped s = 1" and "fclose_ok e"
  shows "\<exists>s'. next_state (consumer c e s) = Some s'"
  using assms
  by (cases "outf s")
     (simp_all add: consumer_def vrb_poi_old_def local_stopped_def end_file_def clear_stopped_def
        close_file_def Let_def)


lemma enqueue_totsize:
  "totsize (ringbuffer (enqueue c i n header s)) = totsize (ringbuffer s)"
  by (simp add: enqueue_accepts store_fields vrb_advance_new_def)

lemma enqueue_totlen:
  "totlen (enqueue c i n header s) \<le> totlen s + enq_size c n \<and> totlen s \<le> totlen (enqueue c i n header s)"
  if "0 \<le> enq_size c n"
  using that by (simp add: enqueue_accepts store_fields)

lemma vrb_poi_new_Some:
  "(\<exists>y. vrb_poi_new v n = Some y) \<longleftrightarrow> fillsize v + n \<le> totsize v"
  "vrb_poi_new v n = None \<longleftrightarrow> \<not> fillsize v + n \<le> totsize v"
  by (auto simp add: vrb_poi_new_def)

lemma len_options_fields:
  "packlen len_options = 1000" "maxwrite len_options = 2048" "\<not> do_blocklen len_options"
  "\<not> stdin_mode len_options" "nsock len_options = 1" "\<not> 0 < maxfilesize len_options"
  "enq_size len_options n = n"
  by (simp_all add: len_options_def default_options_def stdin_mode_def enq_size_def)

lemma io_ok_fields: "fclose_ok (io_ok n)" "fopen_ok (io_ok n)" "fwrite_ret (io_ok n) = n"
  by (simp_all add: io_ok_def)

lemma len_write_sizes:
  "write_size len_options 1000 = 1000" "write_size len_options 2000 = 2000"
  "write_size len_options 2500 = 2000"
  by (simp_all add: write_size_def len_options_fields)

lemma partly_filled_fields:
  "fillsize (ringbuffer partly_filled) = 2500" "stopped partly_filled = 0"
  by (simp_all add: partly_filled_def zero_state_def)

lemma udp_datagram:
  fixes header :: header_lofar
  assumes c: "\<not> stdin_mode c" "nsock c = 1" "\<not> do_blocklen c" "packlen c = n" "0 < n"
      "n < MMAXLEN"
    and "stopped s = 0" and "totlen s - lasttotlen s \<le> 999990000"
    and "fillsize (ringbuffer s) + n \<le> totsize (ringbuffer s)"
  defines "s1 \<equiv> enqueue c 0 n header s"
  shows "step c s (Udp (datagram (nat n) header)) = Some s1"
    and "fillsize (ringbuffer s1) = fillsize (ringbuffer s) + n"
    and "totsize (ringbuffer s1) = totsize (ringbuffer s)"
    and "stopped s1 = 0" and "totlen s1 - lasttotlen s1 \<le> totlen s - lasttotlen s + n"
    and "outf s1 = outf s"
proof -
  have e: "enq_size c n = n" using c(3) by (simp add: enq_size_def)
  show "step c s (Udp (datagram (nat n) header)) = Some s1"
    unfolding s1_def using assms(1-8) step_datagram [of c s "nat n" header]
    by (simp add: MMAXLEN_def)
  show "fillsize (ringbuffer s1) = fillsize (ringbuffer s) + n"
    using assms(4,5,7,9)
    by (simp add: s1_def enqueue_fillsize accepts_def vrb_poi_new_Some e)
  show "totsize (ringbuffer s1) = totsize (ringbuffer s)"
    by (simp add: s1_def enqueue_totsize)
  show "stopped s1 = 0" "outf s1 = outf s"
    using assms(7) by (simp_all add: s1_def enqueue_frame)
  show "totlen s1 - lasttotlen s1 \<le> totlen s - lasttotlen s + n"
    using enqueue_totlen [of c n 0 header s] c(5)
    by (simp add: s1_def e enqueue_frame)
qed

lemma len_datagram:
  fixes header :: header_lofar
  assumes "stopped s = 0" and "totlen s - lasttotlen s \<le> 999990000"
    and "fillsize (ringbuffer s) + 1000 \<le> totsize (ringbuffer s)"
  shows "step len_options s (Udp (datagram 1000 header))
           = Some (enqueue len_options 0 1000 header s)"
    and "fillsize (ringbuffer (enqueue len_options 0 1000 header s))
           = fillsize (ringbuffer s) + 1000"
    and "totsize (ringbuffer (enqueue len_options 0 1000 header s)) = totsize (ringbuffer s)"
    and "stopped (enqueue len_options 0 1000 header s) = 0"
    and "totlen (enqueue len_options 0 1000 header s)
           - lasttotlen (enqueue len_options 0 1000 header s)
         \<le> totlen s - lasttotlen s + 1000"
    and "outf (enqueue len_options 0 1000 header s) = outf s"
  using udp_datagram [of len_options 1000 s header] assms
  by (simp_all add: len_options_fields MMAXLEN_def del: step.simps)

lemma initial_state_len:
  "stopped (initial_state c 4096 10001) = 0"
  "totlen (initial_state c 4096 10001) - lasttotlen (initial_state c 4096 10001) = 0"
  "fillsize (ringbuffer (initial_state c 4096 10001)) = 0"
  "totsize (ringbuffer (initial_state c 4096 10001)) = 12288"
  by (simp_all add: initial_state_fields init_vrb_example)

theorem consumer_write_size_witness:
  "0 \<le> packlen len_options \<and> 0 < maxwrite len_options \<and>
   0 \<le> fillsize (ringbuffer partly_filled) \<and> fillsize (ringbuffer partly_filled) \<noteq> 0 \<and>
   (\<exists>s'. next_state (consumer len_options (io_ok 2000) partly_filled) = Some s' \<and>
         (\<exists>ws. outf s' = Some (ws @ [2000])) \<and> fillsize (ringbuffer s') = 500) \<and>
   fresh (initial_state len_options 4096 10001) \<and>
   (\<exists>t. run len_options (initial_state len_options 4096 10001)
           [Udp (datagram 1000 (example_header 1 0)), Consume (io_ok 1000)] = Some t \<and>
        (\<forall>f \<in> set (files t). (\<forall>w \<in> set f. 1000 dvd w) \<and> (\<forall>k \<in> set (offsets f). 1000 dvd k)))"
proof -
  let ?c = len_options
  let ?s0 = "initial_state len_options 4096 10001"
  let ?h = "example_header 1 0"
  have o: "0 \<le> packlen ?c" "0 < maxwrite ?c" "0 < packlen ?c"
    by (simp_all add: len_options_fields)
  obtain s' where s': "next_state (consumer ?c (io_ok 2000) partly_filled) = Some s'"
    using consumer_busy_next [of partly_filled ?c "io_ok 2000"]
    by (auto simp add: partly_filled_fields len_options_fields io_ok_fields len_write_sizes)
  have sc: "spec_chunk 2500 2048 1000 = 2000"
    by (simp add: spec_chunk_def)
  have i: "stopped ?s0 = 0" "totlen ?s0 - lasttotlen ?s0 \<le> 999990000"
    "fillsize (ringbuffer ?s0) + 1000 \<le> totsize (ringbuffer ?s0)"
    by (simp_all add: initial_state_len)
  have 1: "step ?c ?s0 (Udp (datagram 1000 ?h)) = Some (enqueue ?c 0 1000 ?h ?s0)"
    and f1: "fillsize (ringbuffer (enqueue ?c 0 1000 ?h ?s0)) = 1000"
    and st1: "stopped (enqueue ?c 0 1000 ?h ?s0) = 0"
    using len_datagram [OF i, of ?h] by (simp_all add: initial_state_len del: step.simps)
  obtain t where t: "next_state (consumer ?c (io_ok 1000) (enqueue ?c 0 1000 ?h ?s0)) = Some t"
    using consumer_busy_next [of "enqueue ?c 0 1000 ?h ?s0" ?c "io_ok 1000"]
    by (auto simp add: f1 st1 len_options_fields io_ok_fields len_write_sizes)
  have r: "run ?c ?s0 [Udp (datagram 1000 ?h), Consume (io_ok 1000)] = Some t"
    using 1 t by (simp del: step.simps) simp
  have fr: "fresh ?s0" by (rule fresh_initial_state)
  show ?thesis
    using consumer_write_size [OF o(1,2), of partly_filled "io_ok 2000" s' ?s0
        "[Udp (datagram 1000 ?h), Consume (io_ok 1000)]" t]
      s' r fr
    by (simp add: partly_filled_fields len_options_fields sc)
qed


theorem whole_packets_invariant_witness:
  "0 < packlen len_options \<and> \<not> do_blocklen len_options \<and>
   fresh (initial_state len_options 4096 10001) \<and>
   (\<exists>s. run len_options (initial_state len_options 4096 10001)
           [Udp (datagram 1000 (example_header 1 0)), Udp (datagram 1000 (example_header 1 16)),
            Consume (io_ok 2000), Signal SIGHUP, Consume (io_ok 0)] = Some s \<and>
        closed_files s \<noteq> [] \<and>
        1000 dvd fillsize (ringbuffer s) \<and> 1000 dvd bytes_written_thisfile s \<and>
        (\<forall>f \<in> set (closed_files s). 1000 dvd sum_list f))"
proof -
  let ?c = len_options
  let ?s0 = "initial_state len_options 4096 10001"
  define s1 where "s1 = enqueue ?c 0 1000 (example_header 1 0) ?s0"
  define s2 where "s2 = enqueue ?c 0 1000 (example_header 1 16) s1"
  have i0: "stopped ?s0 = 0" "totlen ?s0 - lasttotlen ?s0 \<le> 999990000"
    "fillsize (ringbuffer ?s0) + 1000 \<le> totsize (ringbuffer ?s0)"
    by (simp_all add: initial_state_len)
  have 1: "step ?c ?s0 (Udp (datagram 1000 (example_header 1 0))) = Some s1"
    and f1: "fillsize (ringbuffer s1) = 1000" "totsize (ringbuffer s1) = 12288"
      "stopped s1 = 0" "totlen s1 - lasttotlen s1 \<le> 1000"
    using len_datagram [OF i0, of "example_header 1 0"]
    by (simp_all add: s1_def initial_state_len del: step.simps)
  have i1: "stopped s1 = 0" "totlen s1 - lasttotlen s1 \<le> 999990000"
    "fillsize (ringbuffer s1) + 1000 \<le> totsize (ringbuffer s1)"
    using f1 by simp_all
  have 2: "step ?c s1 (Udp (datagram 1000 (example_header 1 16))) = Some s2"
    and f2: "fillsize (ringbuffer s2) = 2000" "stopped s2 = 0"
    using len_datagram [OF i1, of "example_header 1 16"]
    by (simp_all add: s2_def f1 del: step.simps)
  obtain s3 where 3: "next_state (consumer ?c (io_ok 2000) s2) = Some s3" and st3: "stopped s3 = 0"
    using consumer_busy_next [of s2 ?c "io_ok 2000"]
    by (auto simp add: f2 len_options_fields io_ok_fields len_write_sizes)
  have f3: "outf s3 \<noteq> None" "fillsize (ringbuffer s3) = 0"
    using consumer_write_pass [of s2 ?c "io_ok 2000" s3] 3
    by (auto simp add: f2 len_write_sizes vrb_advance_old_def)
  define s4 where "s4 = signal_handler ?c SIGHUP s3"
  have 4: "step ?c s3 (Signal SIGHUP) = Some s4"
    by (simp add: s4_def)
  have f4: "stopped s4 = 1" "fillsize (ringbuffer s4) = 0" "outf s4 = outf s3"
    using f3 st3 by (simp_all add: s4_def signal_handler_sighup signal_handler_frame)
  obtain s5 where 5: "next_state (consumer ?c (io_ok 0) s4) = Some s5"
    using consumer_idle_next [of s4 "io_ok 0" ?c] by (auto simp add: f4 io_ok_fields)
  obtain ws where ws: "outf s4 = Some ws" using f3 f4 by auto
  have f5: "closed_files s5 \<noteq> []"
    using consumer_ends_file [OF f4(1) ws 5] by simp
  have r: "run ?c ?s0
             [Udp (datagram 1000 (example_header 1 0)), Udp (datagram 1000 (example_header 1 16)),
              Consume (io_ok 2000), Signal SIGHUP, Consume (io_ok 0)] = Some s5"
    using 1 2 3 4 5 by (simp del: step.simps) simp
  have o: "0 < packlen ?c" "\<not> do_blocklen ?c"
    by (simp_all add: len_options_fields)
  show ?thesis
    using whole_packets_invariant [OF o fresh_initial_state r] r f5 fresh_initial_state
    by (simp add: len_options_fields)
qed

lemma long_len_options_fields:
  "packlen long_len_options = 5000" "maxwrite long_len_options = 2000"
  "\<not> do_blocklen long_len_options" "\<not> beamformed_check long_len_options"
  "\<not> stdin_mode long_len_options" "nsock long_len_options = 1"
  "\<not> 0 < maxfilesize long_len_options"
  by (simp_all add: long_len_options_def default_options_def stdin_mode_def)

theorem oversized_packlen_stalls_witness:
  "option_l (beamformed_check long_len_options) (packlen long_len_options)
     = Accepted (packlen long_len_options) \<and>
   option_m (maxwrite long_len_options) = Accepted (maxwrite long_len_options) \<and>
   maxwrite long_len_options < packlen long_len_options \<and>
   vrb_inv (ringbuffer (enqueue long_len_options 0 5000 (example_header 1 0)
                          (initial_state long_len_options 4096 10001))) \<and>
   fillsize (ringbuffer (enqueue long_len_options 0 5000 (example_header 1 0)
                           (initial_state long_len_options 4096 10001))) = 5000 \<and>
   write_size long_len_options 5000 = 0 \<and>
   (\<exists>s'. next_state (consumer long_len_options (io_ok 0)
                 (enqueue long_len_options 0 5000 (example_header 1 0)
                    (initial_state long_len_options 4096 10001))) = Some s' \<and>
         run long_len_options
             (enqueue long_len_options 0 5000 (example_header 1 0)
                (initial_state long_len_options 4096 10001))
             [Consume (io_ok 0)] = Some s' \<and>
         fillsize (ringbuffer s') = 5000 \<and>
         total_written s' = 0)"
proof -
  let ?c = long_len_options
  let ?s0 = "initial_state long_len_options 4096 10001"
  define s1 where "s1 = enqueue ?c 0 5000 (example_header 1 0) ?s0"
  have f1: "fillsize (ringbuffer s1) = 5000" "stopped s1 = 0" "outf s1 = None"
    using udp_datagram [of ?c 5000 ?s0 "example_header 1 0"]
    by (simp_all add: s1_def long_len_options_fields MMAXLEN_def initial_state_fields
        init_vrb_example del: step.simps)
  have cl: "closed_files s1 = []"
    by (simp add: s1_def enqueue_frame initial_state_fields)
  have tw: "total_written s1 = 0"
    by (simp add: total_written_def files_def f1 cl)
  have v: "vrb_inv (ringbuffer s1)"
    unfolding s1_def using enqueue_vrb_inv [of ?s0 ?c 0 5000 "example_header 1 0"]
    by (simp add: initial_state_fields vrb_inv_init)
  have o: "option_l (beamformed_check ?c) (packlen ?c) = Accepted (packlen ?c)"
    "option_m (maxwrite ?c) = Accepted (maxwrite ?c)" "maxwrite ?c < packlen ?c"
    by (simp_all add: long_len_options_fields option_l_def option_m_def MMAXLEN_def)
  have z: "write_size ?c 5000 = 0"
    by (simp add: write_size_def long_len_options_fields)
  obtain s' where s': "next_state (consumer ?c (io_ok 0) s1) = Some s'"
    using consumer_busy_next [of s1 ?c "io_ok 0"]
    by (auto simp add: f1 long_len_options_fields io_ok_fields z)
  have r: "run ?c s1 [Consume (io_ok 0)] = Some s'"
    using s' by simp
  show ?thesis
    using oversized_packlen_stalls [OF o v, of "io_ok 0" s' "[Consume (io_ok 0)]" s'] s' r o v z
    unfolding s1_def [symmetric]
    by (simp add: f1 tw)
qed

section \<open>The hangup signal\<close>





section \<open>Standard input without size headers\<close>

lemma regular_printout_frame:
  "ringbuffer (regular_printout c s) = ringbuffer s"
  "packs_dropped (regular_printout c s) = packs_dropped s"
  by (simp_all add: regular_printout_def signal_handler_frame)

text \<open>
  Without size headers the reserve that follows the wait asks for the \<^verbatim>\<open>packlen\<close> bytes
  the wait has found room for, and a pass on standard input drops nothing.
\<close>

lemma stdin_without_sizehead_no_drop:
  assumes "\<not> do_blocklen c" and "int n \<le> packlen c"
    and "producer_stdin c n header s = Running s'"
  shows "packs_dropped s' = packs_dropped s"
proof -
  define r where "r = regular_printout c s"
  have fr: "packs_dropped r = packs_dropped s"
    by (simp add: r_def regular_printout_frame)
  show ?thesis
  proof (cases "stopped r \<noteq> 0")
    case True
    then show ?thesis
      using assms(3) fr by (simp add: producer_stdin_def r_def [symmetric])
  next
    case False
    then have room: "fillsize (ringbuffer r) + packlen c \<le> totsize (ringbuffer r)"
      using assms(3)
      by (auto simp add: producer_stdin_def r_def [symmetric] vrb_poi_new_Some
            split: if_splits)
    show ?thesis
    proof (cases "n = 0")
      case True
      then show ?thesis
        using assms(3) False fr room
        by (auto simp add: producer_stdin_def r_def [symmetric] vrb_poi_new_Some
              signal_handler_frame split: if_splits)
    next
      case n: False
      have s': "s' = enqueue c 0 (int n) header r"
        using assms(3) False n room
        by (auto simp add: producer_stdin_def r_def [symmetric] vrb_poi_new_Some
              split: if_splits)
      have "packs_dropped (enqueue c 0 (int n) header r) = packs_dropped r"
      proof (cases "accepts c r (int n)")
        case True
        then have "int n = packlen c"
          using assms(2) n by (auto simp add: accepts_def)
        then have "enq_size c (int n) = packlen c"
          using assms(1) by (simp add: enq_size_def)
        then show ?thesis
          using True room by (simp add: enqueue_accepts store_fields vrb_poi_new_Some)
      next
        case False
        then show ?thesis by (simp add: enqueue_accepts)
      qed
      then show ?thesis by (simp add: s' fr)
    qed
  qed
qed

section \<open>The statistics between two resets\<close>

lemma store_split:
  "store c i n header s =
     count_and_store c i n (if beamformed_check c then account_beamformed i header s else s)"
  by (simp add: store_def count_and_store_def Let_def)

lemma fold_init_port_other:
  "j \<notin> set js \<Longrightarrow>
     packs_seen (fold init_port js s) j = packs_seen s j \<and>
     beamformed_good_packs (fold init_port js s) j = beamformed_good_packs s j \<and>
     beamformed_first_packno (fold init_port js s) j = beamformed_first_packno s j"
  by (induction js arbitrary: s) (simp_all add: init_port_def)

lemma snapshot_frame_counters:
  "packs_seen (fold (snapshot_port c) js s) = packs_seen s \<and>
   beamformed_good_packs (fold (snapshot_port c) js s) = beamformed_good_packs s \<and>
   beamformed_first_packno (fold (snapshot_port c) js s) = beamformed_first_packno s \<and>
   beamformed_last_packno (fold (snapshot_port c) js s) = beamformed_last_packno s"
  by (induction js arbitrary: s) (simp_all add: snapshot_port_def Let_def)

text \<open>The signal handler reads the four counters and writes none of them.\<close>

lemma signal_handler_counters:
  "packs_seen (signal_handler c k s) = packs_seen s"
  "beamformed_good_packs (signal_handler c k s) = beamformed_good_packs s"
  "beamformed_first_packno (signal_handler c k s) = beamformed_first_packno s"
  "beamformed_last_packno (signal_handler c k s) = beamformed_last_packno s"
  by (simp_all add: signal_handler_def Let_def snapshot_frame_counters signal_data_available_def)

lemma same_counters_refl: "same_counters s s"
  by (simp add: same_counters_def)

lemma start_file_counters: "start_file c e s = Some s' \<Longrightarrow> same_counters s s'"
  by (auto simp add: start_file_def same_counters_def Let_def split: if_splits)

lemma close_file_counters:
  assumes "close_file c e m s = Some s'"
  shows "same_counters s s' \<or> same_counters (init_thisfilestat c s) s'"
proof -
  define s1 where "s1 = (if m \<noteq> - 1 \<or> stat_per_splitfile c then init_thisfilestat c s else s)"
  define s2 where "s2 = s1\<lparr>closed_files := closed_files s1 @
                          (case outf s1 of None \<Rightarrow> [] | Some ws \<Rightarrow> [ws]), outf := None\<rparr>"
  have 1: "same_counters s s1 \<or> same_counters (init_thisfilestat c s) s1"
    by (simp add: s1_def same_counters_def)
  have 2: "same_counters s1 s2"
    by (simp add: s2_def same_counters_def)
  have "s' = s2 \<or> start_file c e s2 = Some s'"
    using assms
    by (auto simp add: close_file_def s1_def s2_def Let_def split: if_splits)
  then have 3: "same_counters s2 s'"
    using start_file_counters by (auto simp add: same_counters_refl)
  show ?thesis
    using 1 2 3 by (auto simp add: same_counters_def)
qed

lemma write_block_counters: "write_block c e s = Running s' \<Longrightarrow> same_counters s s'"
  by (auto simp add: write_block_def same_counters_def Let_def
        split: if_splits option.splits dest!: start_file_counters)

text \<open>
  A pass of the consumer leaves the four counters as they are or as \<^verbatim>\<open>init_thisfilestat\<close>
  sets them.
\<close>

lemma consumer_counters:
  assumes "next_state (consumer c e s) = Some s'"
  shows "same_counters s s' \<or> same_counters (init_thisfilestat c s) s'"
proof -
  have endf: "same_counters s s1 \<or> same_counters (init_thisfilestat c s) s1"
    if "end_file c e m d s = Some s1" for m d s1
    using that close_file_counters [of c e m s s1]
    by (auto simp add: end_file_def same_counters_refl split: if_splits)
  have clr: "same_counters s1 (clear_stopped k s1)" for k s1
    by (simp add: clear_stopped_def same_counters_def)
  from assms show ?thesis
  proof (cases rule: consumer_next)
    case (idle s1)
    then show ?thesis
      using endf [OF idle(2)] clr [of s1 "stopped s"] by (auto simp add: same_counters_def)
  next
    case (busy s1)
    then show ?thesis
      using endf [OF busy(2)] clr [of s1 "stopped s"] write_block_counters [OF busy(3)]
      by (auto simp add: same_counters_def)
  qed
qed


section \<open>Packet numbers and counters along a run\<close>

lemma port_same_refl: "port_same i s s"
  by (simp add: port_same_def)

lemma port_same_trans: "port_same i s r \<Longrightarrow> port_same i r s' \<Longrightarrow> port_same i s s'"
  by (simp add: port_same_def)

lemma port_same_counted:
  "port_same i s r \<Longrightarrow> port_counted i header r s' \<Longrightarrow> port_counted i header s s'"
  by (simp add: port_same_def port_counted_def)

lemma port_counted_same:
  "port_counted i header s r \<Longrightarrow> port_same i r s' \<Longrightarrow> port_counted i header s s'"
  by (simp add: port_same_def port_counted_def)

lemma same_counters_port: "same_counters s s' \<Longrightarrow> port_same i s s'"
  by (simp add: same_counters_def port_same_def)

lemma reset_counters_port:
  "i < nsock c \<Longrightarrow> same_counters (init_thisfilestat c s) s' \<Longrightarrow> port_reset i s s'"
  by (simp add: same_counters_def port_reset_def init_thisfilestat_reset init_thisfilestat_frame)

lemma signal_handler_port: "port_same i s (signal_handler c k s)"
  by (simp add: port_same_def signal_handler_counters)

lemma regular_printout_port: "port_same i s (regular_printout c s)"
  by (simp add: regular_printout_def signal_handler_port port_same_refl)

lemma regular_printout_stopped: "stopped (regular_printout c s) = stopped s"
  by (simp add: regular_printout_def signal_handler_def Let_def snapshot_frame
        SIGHUP_def SIGINT_def SIGTERM_def SIGALRM_def)

lemma accepts_regular_printout: "accepts c (regular_printout c s) n = accepts c s n"
  by (simp add: accepts_def regular_printout_stopped)

lemma enqueue_counted:
  "beamformed_check c \<Longrightarrow> accepts c s n \<Longrightarrow> port_counted i header s (enqueue c i n header s)"
  by (simp add: port_counted_def enqueue_same_port)

lemma enqueue_not_counted:
  "\<not> accepts c s n \<or> j \<noteq> i \<Longrightarrow> port_same i s (enqueue c j n header s)"
  by (auto simp add: port_same_def enqueue_other_port enqueue_rejected)

text \<open>
  The loop over the sockets counts on socket \<open>i\<close> the packet that \<^verbatim>\<open>recvfrom\<close> returns
  for it, if the packet is accepted, and leaves the counters of the socket otherwise.
\<close>

lemma recv_all_port:
  assumes "beamformed_check c" and "distinct js"
    and "next_state (recv_all c rd js s) = Some s'"
  shows "case (if i \<in> set js then rd i else NotReady) of
           Recvfrom n header \<Rightarrow>
             if accepts c s (int n) then port_counted i header s s' else port_same i s s'
         | _ \<Rightarrow> port_same i s s'"
  using assms(2,3)
proof (induction js arbitrary: s)
  case Nil
  then show ?case by (simp add: port_same_refl)
next
  case (Cons j js)
  have d: "distinct js" and nj: "j \<notin> set js"
    using Cons.prems(1) by simp_all
  show ?case
  proof (cases "rd j")
    case NotReady
    then have "next_state (recv_all c rd js s) = Some s'"
      using Cons.prems(2) by simp
    from Cons.IH [OF d this] show ?thesis
      using NotReady by (auto split: recv.splits if_splits)
  next
    case RecvError
    then show ?thesis using Cons.prems(2) by simp
  next
    case (Recvfrom m h)
    let ?s = "enqueue c j (int m) h s"
    have n: "next_state (recv_all c rd js ?s) = Some s'"
      using Cons.prems(2) Recvfrom by (simp split: if_splits)
    note IH = Cons.IH [OF d n]
    show ?thesis
    proof (cases "i = j")
      case True
      then have "port_same i ?s s'"
        using IH nj by simp
      moreover have "accepts c s (int m) \<Longrightarrow> port_counted i h s ?s"
        and "\<not> accepts c s (int m) \<Longrightarrow> port_same i s ?s"
        using enqueue_counted [OF assms(1), of s "int m" i h]
          enqueue_not_counted [of c s "int m" i i h] True by simp_all
      ultimately show ?thesis
        using True Recvfrom by (auto intro: port_counted_same port_same_trans)
    next
      case False
      then have same: "port_same i s ?s"
        using enqueue_not_counted [of c s "int m" j i h] by simp
      show ?thesis
        using IH False same
        by (auto simp add: accepts_enqueue split: recv.splits if_splits
              intro: port_same_counted port_same_trans)
    qed
  qed
qed

text \<open>
  One pass of a thread, or one signal, does to the counters of a configured port what
  \<open>delivered\<close> says: it counts the packet delivered, or else leaves the counters or
  resets them.
\<close>

lemma producer_udp_port:
  assumes "beamformed_check c" and "i < nsock c"
    and "next_state (producer_udp c sel s) = Some s'"
  shows "case delivered c i s (Udp sel) of
           Some header \<Rightarrow> port_counted i header s s'
         | None \<Rightarrow> port_same i s s'"
proof -
  let ?r = "regular_printout c s"
  have r: "port_same i s ?r" by (rule regular_printout_port)
  have iin: "i \<in> set [0..<nsock c]" using assms(2) by simp
  show ?thesis
  proof (cases "stopped ?r = 2")
    case True
    then have "s' = ?r"
      using assms(3) by (simp add: producer_udp_def Let_def split: if_splits)
    moreover have "delivered c i s (Udp sel) = None"
      using True by (simp add: accepts_def regular_printout_stopped split: pselect.splits recv.splits)
    ultimately show ?thesis using r by simp
  next
    case False
    show ?thesis
    proof (cases "pselect_ret sel")
      case PselectFail
      then show ?thesis using assms(3) False by (simp add: producer_udp_def Let_def)
    next
      case PselectTimeout
      then have "next_state (recv_all c (\<lambda>i. NotReady) [0..<nsock c]
                   (signal_handler c (- 1) ?r)) = Some s'"
        using assms(3) False by (simp add: producer_udp_def Let_def)
      from recv_all_port [OF assms(1) _ this, of i]
      have "port_same i (signal_handler c (- 1) ?r) s'" by simp
      then have "port_same i s s'"
        using r signal_handler_port [of i ?r c "- 1"] by (blast intro: port_same_trans)
      then show ?thesis using PselectTimeout by simp
    next
      case (PselectReady rd)
      then have "next_state (recv_all c rd [0..<nsock c] ?r) = Some s'"
        using assms(3) False by (simp add: producer_udp_def Let_def)
      from recv_all_port [OF assms(1) _ this, of i]
      have "case rd i of
              Recvfrom n header \<Rightarrow>
                if accepts c ?r (int n) then port_counted i header ?r s' else port_same i ?r s'
            | _ \<Rightarrow> port_same i ?r s'"
        using iin by simp
      then show ?thesis
        using PselectReady assms(2) r
        by (auto simp add: accepts_regular_printout split: recv.splits if_splits
              intro: port_same_counted port_same_trans)
    qed
  qed
qed

lemma producer_stdin_port:
  assumes "beamformed_check c"
    and "next_state (producer_stdin c n header s) = Some s'"
  shows "case delivered c i s (Stdin n header) of
           Some h \<Rightarrow> port_counted i h s s'
         | None \<Rightarrow> port_same i s s'"
proof -
  let ?r = "regular_printout c s"
  have r: "port_same i s ?r" by (rule regular_printout_port)
  consider (stop) "stopped s \<noteq> 0" "s' = ?r"
    | (eof) "stopped s = 0" "n = 0" "s' = signal_handler c (- 1) ?r"
    | (data) "stopped s = 0" "n \<noteq> 0" "s' = enqueue c 0 (int n) header ?r"
    using assms(2)
    by (auto simp add: producer_stdin_def Let_def regular_printout_stopped split: if_splits)
  then show ?thesis
  proof cases
    case stop
    then show ?thesis using r by simp
  next
    case eof
    then show ?thesis
      using r signal_handler_port [of i ?r c "- 1"]
      by (auto simp add: accepts_def intro: port_same_trans)
  next
    case data
    show ?thesis
    proof (cases "i = 0 \<and> accepts c s (int n)")
      case True
      then have "port_counted i header ?r s'"
        using enqueue_counted [OF assms(1), of ?r "int n" 0 header] data
        by (simp add: accepts_regular_printout)
      then show ?thesis
        using True data r by (auto intro: port_same_counted)
    next
      case False
      then have "port_same i ?r s'"
        using enqueue_not_counted [of c ?r "int n" 0 i header] data
        by (auto simp add: accepts_regular_printout)
      then show ?thesis
        using False data r by (auto intro: port_same_trans)
    qed
  qed
qed

lemma step_port:
  assumes "beamformed_check c" and "i < nsock c" and "step c s ev = Some s'"
  shows "case delivered c i s ev of
           Some header \<Rightarrow> port_counted i header s s'
         | None \<Rightarrow> port_same i s s' \<or> port_reset i s s'"
proof (cases ev)
  case (Stdin n header)
  then have "next_state (producer_stdin c n header s) = Some s'"
    using assms(3) by (simp split: if_splits)
  from producer_stdin_port [OF assms(1) this, of i] show ?thesis
    unfolding Stdin by (auto split: option.splits)
next
  case (Udp sel)
  then have "next_state (producer_udp c sel s) = Some s'"
    using assms(3) by (simp split: if_splits)
  from producer_udp_port [OF assms(1,2) this] show ?thesis
    unfolding Udp by (auto split: option.splits)
next
  case (Consume e)
  then have "next_state (consumer c e s) = Some s'"
    using assms(3) by simp
  from consumer_counters [OF this] show ?thesis
    using Consume assms(2) by (auto intro: same_counters_port reset_counters_port)
next
  case (Signal k)
  then have "s' = signal_handler c k s"
    using assms(3) by (simp split: if_splits)
  then show ?thesis
    using Signal by (simp add: signal_handler_port)
qed

text \<open>Along a run, no more good packets are counted on a port than packets seen.\<close>

lemma run_good_le_seen:
  assumes "beamformed_check c" and "i < nsock c"
  shows "beamformed_good_packs s i \<le> packs_seen s i \<Longrightarrow> run c s evs = Some s' \<Longrightarrow>
         beamformed_good_packs s' i \<le> packs_seen s' i"
proof (induction evs arbitrary: s)
  case Nil
  then show ?case by simp
next
  case (Cons ev evs)
  then obtain s1 where s1: "step c s ev = Some s1" and r: "run c s1 evs = Some s'"
    by (auto simp del: step.simps split: option.splits)
  have "beamformed_good_packs s1 i \<le> packs_seen s1 i"
    using step_port [OF assms s1] Cons.prems(1)
    by (auto simp add: port_counted_def port_same_def port_reset_def split: option.splits)
  then show ?case using r by (rule Cons.IH)
qed

text \<open>
  The span of the packet numbers. Since the last reset either no packet has been counted
  and \<^verbatim>\<open>beamformed_first_packno\<close> is unset, or the span from the first to the last packet
  number is at least the count.
\<close>

lemma run_span:
  assumes "beamformed_check c" and "i < nsock c"
  shows "packs_seen s i = 0 \<and> beamformed_first_packno s i = - 1 \<or>
           0 < packs_seen s i \<and> beamformed_first_packno s i \<noteq> - 1 \<and>
           packs_seen s i \<le> beamformed_last_packno s i - beamformed_first_packno s i + 1 \<and>
           (\<forall>p \<in> set (run_packnos c i s evs). beamformed_last_packno s i < p) \<Longrightarrow>
         sorted_wrt (<) (run_packnos c i s evs) \<Longrightarrow>
         - 1 \<notin> set (run_packnos c i s evs) \<Longrightarrow>
         run c s evs = Some s' \<Longrightarrow>
         packs_seen s' i = 0 \<and> beamformed_first_packno s' i = - 1 \<or>
           0 < packs_seen s' i \<and> beamformed_first_packno s' i \<noteq> - 1 \<and>
           packs_seen s' i \<le> beamformed_last_packno s' i - beamformed_first_packno s' i + 1"
proof (induction evs arbitrary: s)
  case Nil
  then show ?case by auto
next
  case (Cons ev evs)
  from Cons.prems(4) obtain s1 where s1: "step c s ev = Some s1" and r: "run c s1 evs = Some s'"
    by (auto simp del: step.simps split: option.splits)
  note sp = step_port [OF assms s1]
  show ?case
  proof (cases "delivered c i s ev")
    case None
    then have P: "run_packnos c i s (ev # evs) = run_packnos c i s1 evs"
      using s1 by (simp del: step.simps)
    have "port_same i s s1 \<or> port_reset i s s1"
      using sp None by simp
    then have "packs_seen s1 i = 0 \<and> beamformed_first_packno s1 i = - 1 \<or>
           0 < packs_seen s1 i \<and> beamformed_first_packno s1 i \<noteq> - 1 \<and>
           packs_seen s1 i \<le> beamformed_last_packno s1 i - beamformed_first_packno s1 i + 1 \<and>
           (\<forall>p \<in> set (run_packnos c i s1 evs). beamformed_last_packno s1 i < p)"
      using Cons.prems(1) unfolding P by (auto simp add: port_same_def port_reset_def)
    then show ?thesis
      using Cons.prems(2,3) r unfolding P by (rule Cons.IH)
  next
    case (Some header)
    then have P: "run_packnos c i s (ev # evs) = beamformed_packno header # run_packnos c i s1 evs"
      using s1 by (simp del: step.simps)
    have cnt: "port_counted i header s s1"
      using sp Some by simp
    have ne: "beamformed_packno header \<noteq> - 1"
      and lt: "\<forall>p \<in> set (run_packnos c i s1 evs). beamformed_packno header < p"
      and so: "sorted_wrt (<) (run_packnos c i s1 evs)"
      and no: "- 1 \<notin> set (run_packnos c i s1 evs)"
      using Cons.prems(2,3) unfolding P by auto
    have old: "0 < packs_seen s i \<Longrightarrow> beamformed_last_packno s i < beamformed_packno header"
      using Cons.prems(1) unfolding P by auto
    have "0 < packs_seen s1 i \<and> beamformed_first_packno s1 i \<noteq> - 1 \<and>
           packs_seen s1 i \<le> beamformed_last_packno s1 i - beamformed_first_packno s1 i + 1 \<and>
           (\<forall>p \<in> set (run_packnos c i s1 evs). beamformed_last_packno s1 i < p)"
      using Cons.prems(1) cnt ne lt old unfolding P
      by (auto simp add: port_counted_def)
    then have "packs_seen s1 i = 0 \<and> beamformed_first_packno s1 i = - 1 \<or>
           0 < packs_seen s1 i \<and> beamformed_first_packno s1 i \<noteq> - 1 \<and>
           packs_seen s1 i \<le> beamformed_last_packno s1 i - beamformed_first_packno s1 i + 1 \<and>
           (\<forall>p \<in> set (run_packnos c i s1 evs). beamformed_last_packno s1 i < p)"
      by simp
    then show ?thesis
      using so no r by (rule Cons.IH)
  qed
qed


text \<open>Passes of the example run that are certain to return.\<close>

lemma recv_all_ready:
  "int n < MMAXLEN \<Longrightarrow> \<exists>s'. recv_all c (\<lambda>i. Recvfrom n header) js s = Running s'"
  by (induction js arbitrary: s) simp_all

lemma step_datagram_next:
  assumes "\<not> stdin_mode c" and "int n < MMAXLEN"
  shows "\<exists>s'. step c s (Udp (datagram n header)) = Some s'"
proof -
  obtain s' where "recv_all c (\<lambda>i. Recvfrom n header) [0..<nsock c] (regular_printout c s)
      = Running s'"
    using recv_all_ready [OF assms(2)] by blast
  then show ?thesis
    using assms(1) by (simp add: producer_udp_def datagram_def Let_def)
qed

lemma delivered_datagram:
  "i < nsock c \<Longrightarrow> accepts c s (int n) \<Longrightarrow> delivered c i s (Udp (datagram n header)) = Some header"
  by (simp add: datagram_def)

lemma consumer_idle_reset:
  assumes "fillsize (ringbuffer s) = 0" and "stopped s = 1" and "outf s \<noteq> None"
    and "fclose_ok e"
  shows "\<exists>s'. next_state (consumer c e s) = Some s' \<and> stopped s' = 0 \<and>
              same_counters (init_thisfilestat c s) s'"
  using assms
  by (auto simp add: consumer_def vrb_poi_old_def local_stopped_def end_file_def
        clear_stopped_def close_file_def Let_def same_counters_def init_thisfilestat_frame)

lemma check_options_run:
  "\<not> stdin_mode check_options" "\<not> do_blocklen check_options"
  "\<not> 0 < maxfilesize check_options" "write_size check_options 7824 = 7824"
  by (simp_all add: check_options_def default_options_def stdin_mode_def write_size_def)

text \<open>
  C7, as amended. With the beamformed check enabled, take any run of the program in
  which each pass of a thread is one step, so that no reset of the statistics by the
  consumer falls inside an iteration of the producer, and which starts with the
  statistics of a configured port initialised. After each pass, \<open>good \<le> seen\<close> holds for
  that port; and if at least one packet has been counted on it since the statistics
  were last initialised, \<open>last_packno - first_packno + 1 \<ge> seen\<close> holds provided the
  packet numbers of the packets accepted on the port are strictly increasing and none
  of them is \<open>- 1\<close>, the value that marks \<^verbatim>\<open>beamformed_first_packno\<close> as unset.
\<close>

theorem packno_span:
  assumes "beamformed_check c" and "i < nsock c"
    and "packs_seen s i = 0"
    and "beamformed_first_packno s i = - 1"
    and "beamformed_good_packs s i = 0"
    and "run c s evs = Some s'"
  shows "beamformed_good_packs s' i \<le> packs_seen s' i \<and>
         (sorted_wrt (<) (run_packnos c i s evs) \<and> - 1 \<notin> set (run_packnos c i s evs) \<and>
          0 < packs_seen s' i \<longrightarrow>
          packs_seen s' i
            \<le> beamformed_last_packno s' i - beamformed_first_packno s' i + 1)"
proof
  show "beamformed_good_packs s' i \<le> packs_seen s' i"
    using run_good_le_seen [OF assms(1,2) _ assms(6)] assms(3,5) by simp
  show "sorted_wrt (<) (run_packnos c i s evs) \<and> - 1 \<notin> set (run_packnos c i s evs) \<and>
          0 < packs_seen s' i \<longrightarrow>
          packs_seen s' i
            \<le> beamformed_last_packno s' i - beamformed_first_packno s' i + 1"
  proof
    assume h: "sorted_wrt (<) (run_packnos c i s evs) \<and> - 1 \<notin> set (run_packnos c i s evs) \<and>
          0 < packs_seen s' i"
    have "packs_seen s' i = 0 \<and> beamformed_first_packno s' i = - 1 \<or>
           0 < packs_seen s' i \<and> beamformed_first_packno s' i \<noteq> - 1 \<and>
           packs_seen s' i \<le> beamformed_last_packno s' i - beamformed_first_packno s' i + 1"
      using assms(3,4) h by (intro run_span [OF assms(1,2) _ _ _ assms(6)]) simp_all
    with h show "packs_seen s' i
            \<le> beamformed_last_packno s' i - beamformed_first_packno s' i + 1"
      by auto
  qed
qed

theorem packno_span_witness:
  "beamformed_check check_options \<and> 0 < nsock check_options \<and>
   packs_seen (initial_state check_options 4096 10001) 0 = 0 \<and>
   beamformed_first_packno (initial_state check_options 4096 10001) 0 = - 1 \<and>
   beamformed_good_packs (initial_state check_options 4096 10001) 0 = 0 \<and>
   run_packnos check_options 0 (initial_state check_options 4096 10001)
     [Udp (datagram 7824 (example_header 1 0)), Consume (io_ok 7824), Signal SIGHUP,
      Consume (io_ok 0), Udp (datagram 7824 (example_header 1 16))] = [12207, 12208] \<and>
   (\<exists>s. run check_options (initial_state check_options 4096 10001)
           [Udp (datagram 7824 (example_header 1 0)), Consume (io_ok 7824), Signal SIGHUP,
            Consume (io_ok 0), Udp (datagram 7824 (example_header 1 16))] = Some s \<and>
        packs_seen s 0 = 1 \<and>
        beamformed_good_packs s 0 \<le> packs_seen s 0 \<and>
        packs_seen s 0 \<le> beamformed_last_packno s 0 - beamformed_first_packno s 0 + 1)"
proof -
  let ?c = check_options
  let ?s0 = "initial_state check_options 4096 10001"
  let ?h1 = "example_header 1 0"
  let ?h2 = "example_header 1 16"
  define s1 where "s1 = enqueue ?c 0 7824 ?h1 ?s0"
  have o: "beamformed_check ?c" "0 < nsock ?c"
    by (simp_all add: check_options_fields)
  have i0: "packs_seen ?s0 0 = 0" "beamformed_first_packno ?s0 0 = - 1"
    "beamformed_good_packs ?s0 0 = 0"
    by (simp_all add: initial_state_ports check_options_fields)
  have 1: "step ?c ?s0 (Udp (datagram 7824 ?h1)) = Some s1"
    and f1: "fillsize (ringbuffer s1) = 7824" "stopped s1 = 0"
    using udp_datagram [of ?c 7824 ?s0 ?h1]
    by (simp_all add: s1_def check_options_fields check_options_run MMAXLEN_def
          initial_state_len del: step.simps)
  have d1: "delivered ?c 0 ?s0 (Udp (datagram 7824 ?h1)) = Some ?h1"
    using delivered_datagram [of 0 ?c ?s0 7824 ?h1]
    by (simp add: accepts_def check_options_fields initial_state_fields)
  obtain s2 where 2: "next_state (consumer ?c (io_ok 7824) s1) = Some s2" and st2: "stopped s2 = 0"
    using consumer_busy_next [of s1 ?c "io_ok 7824"]
    by (auto simp add: f1 check_options_run io_ok_fields)
  have f2: "outf s2 \<noteq> None" "fillsize (ringbuffer s2) = 0"
    using consumer_write_pass [of s1 ?c "io_ok 7824" s2] 2
    by (auto simp add: f1 check_options_run vrb_advance_old_def)
  define s3 where "s3 = signal_handler ?c SIGHUP s2"
  have 3: "step ?c s2 (Signal SIGHUP) = Some s3"
    by (simp add: s3_def)
  have f3: "stopped s3 = 1" "fillsize (ringbuffer s3) = 0" "outf s3 \<noteq> None"
    using f2 st2 by (simp_all add: s3_def signal_handler_sighup signal_handler_frame)
  obtain s4 where 4: "next_state (consumer ?c (io_ok 0) s3) = Some s4" and st4: "stopped s4 = 0"
    and c4: "same_counters (init_thisfilestat ?c s3) s4"
    using consumer_idle_reset [OF f3(2,1,3), of "io_ok 0" ?c] by (auto simp add: io_ok_fields)
  have f4: "packs_seen s4 0 = 0"
    using c4 by (simp add: same_counters_def init_thisfilestat_reset check_options_fields)
  obtain s5 where 5: "step ?c s4 (Udp (datagram 7824 ?h2)) = Some s5"
    using step_datagram_next [of ?c 7824 s4 ?h2]
    by (auto simp add: check_options_run MMAXLEN_def simp del: step.simps)
  have d5: "delivered ?c 0 s4 (Udp (datagram 7824 ?h2)) = Some ?h2"
    using delivered_datagram [of 0 ?c s4 7824 ?h2]
    by (simp add: accepts_def check_options_fields st4)
  have f5: "packs_seen s5 0 = 1"
    using step_port [OF o(1) _ 5, of 0] d5 f4
    by (simp add: check_options_fields port_counted_def del: step.simps)
  have r: "run ?c ?s0
             [Udp (datagram 7824 ?h1), Consume (io_ok 7824), Signal SIGHUP,
              Consume (io_ok 0), Udp (datagram 7824 ?h2)] = Some s5"
    using 1 2 3 4 5 by (simp del: step.simps) simp
  have p: "run_packnos ?c 0 ?s0
             [Udp (datagram 7824 ?h1), Consume (io_ok 7824), Signal SIGHUP,
              Consume (io_ok 0), Udp (datagram 7824 ?h2)] = [12207, 12208]"
  proof -
    have c2: "step ?c s1 (Consume (io_ok 7824)) = Some s2"
      and c4': "step ?c s3 (Consume (io_ok 0)) = Some s4"
      using 2 4 by simp_all
    have dn: "delivered ?c 0 s1 (Consume (io_ok 7824)) = None"
      "delivered ?c 0 s2 (Signal SIGHUP) = None" "delivered ?c 0 s3 (Consume (io_ok 0)) = None"
      by simp_all
    show ?thesis
      by (simp add: 1 c2 3 c4' 5 d1 d5 dn example_packnos del: step.simps delivered.simps)
  qed
  show ?thesis
    using packno_span [OF o i0 r] o i0 r p f5 by (simp del: run.simps run_packnos.simps)
qed

text \<open>
  C7 as stated fails for a packet that arrives twice: two packets are seen, and
  \<open>last_packno - first_packno + 1\<close> is 1.
\<close>

theorem packno_span_counterexample:
  "packs_seen (enqueue_list check_options
       [(0, 7824, example_header 1 0), (0, 7824, example_header 1 0)]
       (initial_state check_options 4096 10001)) 0 = 2 \<and>
   beamformed_last_packno (enqueue_list check_options
       [(0, 7824, example_header 1 0), (0, 7824, example_header 1 0)]
       (initial_state check_options 4096 10001)) 0
   - beamformed_first_packno (enqueue_list check_options
       [(0, 7824, example_header 1 0), (0, 7824, example_header 1 0)]
       (initial_state check_options 4096 10001)) 0 + 1 = 1"
proof -
  define s0 where "s0 = initial_state check_options 4096 10001"
  define s1 where "s1 = enqueue check_options 0 7824 (example_header 1 0) s0"
  define s2 where "s2 = enqueue check_options 0 7824 (example_header 1 0) s1"
  have acc: "accepts check_options s0 7824" "accepts check_options s1 7824"
    by (simp_all add: accepts_def check_options_fields s1_def enqueue_frame s0_def
          initial_state_fields)
  have f0: "packs_seen s0 0 = 0" "beamformed_first_packno s0 0 = - 1"
    by (simp_all add: s0_def initial_state_ports check_options_fields)
  have f1: "packs_seen s1 0 = 1" "beamformed_first_packno s1 0 = 12207"
    using acc(1) by (simp_all add: s1_def enqueue_same_port check_options_fields f0 example_packnos)
  have f2: "packs_seen s2 0 = 2" "beamformed_first_packno s2 0 = 12207"
    "beamformed_last_packno s2 0 = 12207"
    using acc(2) by (simp_all add: s2_def enqueue_same_port check_options_fields f1 example_packnos)
  have "enqueue_list check_options
          [(0, 7824, example_header 1 0), (0, 7824, example_header 1 0)] s0 = s2"
    by (simp add: s2_def s1_def)
  then show ?thesis
    unfolding s0_def [symmetric] by (simp add: f2)
qed

text \<open>
  Taking each pass as one step matters here: \<^verbatim>\<open>init_thisfilestat\<close> resets the counters
  in the consumer without a lock that the producer holds. Inside an iteration of the
  producer the good packets are counted before the packets seen; and a reset that falls
  between the accounting of a packet and \<^verbatim>\<open>packs_seen[i]++\<close> leaves a packet counted
  whose number is not in the span: \<open>sA\<close> is the state after the accounting of a first
  packet, \<open>sB\<close> the state after the reset, \<open>sC\<close> the state at the end of the iteration and
  \<open>sD\<close> the state after the next packet.
\<close>

lemma count_and_store_fields:
  "packs_seen (count_and_store c i n s) = (packs_seen s)(i := packs_seen s i + 1)"
  "beamformed_first_packno (count_and_store c i n s) = beamformed_first_packno s"
  "beamformed_last_packno (count_and_store c i n s) = beamformed_last_packno s"
  "beamformed_good_packs (count_and_store c i n s) = beamformed_good_packs s"
  "stopped (count_and_store c i n s) = stopped s"
  by (simp_all add: count_and_store_def Let_def commit_fields)

lemma accounting_precedes_count:
  "beamformed_good_packs
     (account_beamformed 0 (example_header 1 0) (initial_state check_options 4096 10001)) 0 = 1 \<and>
   packs_seen
     (account_beamformed 0 (example_header 1 0) (initial_state check_options 4096 10001)) 0 = 0"
  by (simp add: account_beamformed_packno account_beamformed_frame initial_state_ports
        check_options_fields beamformed_checkpack_def example_header_def)

lemma reset_inside_iteration:
  fixes s0 sA sB sC sD :: state
  defines "s0 \<equiv> initial_state check_options 4096 10001"
  defines "sA \<equiv> account_beamformed 0 (example_header 1 0) s0"
  defines "sB \<equiv> init_thisfilestat check_options sA"
  defines "sC \<equiv> count_and_store check_options 0 7824 sB"
  defines "sD \<equiv> enqueue check_options 0 7824 (example_header 1 16) sC"
  shows "count_and_store check_options 0 7824 sA
           = enqueue check_options 0 7824 (example_header 1 0) s0"
    and "packs_seen sD 0 = 2"
    and "beamformed_last_packno sD 0 - beamformed_first_packno sD 0 + 1 = 1"
proof -
  have acc0: "accepts check_options s0 7824"
    by (simp add: accepts_def check_options_fields s0_def initial_state_fields)
  show "count_and_store check_options 0 7824 sA
          = enqueue check_options 0 7824 (example_header 1 0) s0"
    using acc0 by (simp add: enqueue_accepts store_split check_options_fields sA_def)
  have fB: "packs_seen sB 0 = 0" "beamformed_first_packno sB 0 = - 1" "stopped sB = 0"
    by (simp_all add: sB_def init_thisfilestat_reset init_thisfilestat_frame check_options_fields
          sA_def account_beamformed_frame s0_def initial_state_fields)
  have fC: "packs_seen sC 0 = 1" "beamformed_first_packno sC 0 = - 1" "stopped sC = 0"
    by (simp_all add: sC_def count_and_store_fields fB)
  have accC: "accepts check_options sC 7824"
    by (simp add: accepts_def check_options_fields fC)
  show "packs_seen sD 0 = 2"
    using accC by (simp add: sD_def enqueue_same_port check_options_fields fC)
  show "beamformed_last_packno sD 0 - beamformed_first_packno sD 0 + 1 = 1"
    using accC by (simp add: sD_def enqueue_same_port check_options_fields fC)
qed

end
